theory Spec2Isabelle
  imports Main "HOL-Library.AList"
begin

section \<open>Strings of the formatter\<close>

text \<open>
  The formatter of \<^verbatim>\<open>src/src/formatter.ts\<close> works on JavaScript strings. A string is
  modelled as a \<^typ>\<open>string\<close>; every \<^typ>\<open>char\<close> stands for the UTF-16 code unit of the
  same number (code units below 256), and \<open>length\<close> counts code units as
  \<^verbatim>\<open>String.prototype.length\<close> does.
\<close>

definition is_space :: "char \<Rightarrow> bool" where
  \<comment> \<open>the class \<^verbatim>\<open>\s\<close>, and what \<^verbatim>\<open>trim\<close> strips: TAB, LF, VT, FF, CR, SP, NBSP\<close>
  "is_space c \<longleftrightarrow>
     c = CHR 0x09 \<or> c = CHR 0x0A \<or> c = CHR 0x0B \<or> c = CHR 0x0C \<or> c = CHR 0x0D \<or>
     c = CHR 0x20 \<or> c = CHR 0xA0"

definition is_letter :: "char \<Rightarrow> bool" where
  "is_letter c \<longleftrightarrow> c \<in> set ''abcdefghijklmnopqrstuvwxyzABCDEFGHIJKLMNOPQRSTUVWXYZ''"

definition is_word :: "char \<Rightarrow> bool" where
  \<comment> \<open>the class \<^verbatim>\<open>\w\<close>\<close>
  "is_word c \<longleftrightarrow> is_letter c \<or> c \<in> set ''0123456789_''"

definition is_dot :: "char \<Rightarrow> bool" where
  \<comment> \<open>the class \<^verbatim>\<open>.\<close>: everything but the line terminators\<close>
  "is_dot c \<longleftrightarrow> c \<noteq> CHR 0x0A \<and> c \<noteq> CHR 0x0D"

definition trim :: "string \<Rightarrow> string" where
  "trim s = rev (dropWhile is_space (rev (dropWhile is_space s)))"

fun split_on :: "char \<Rightarrow> string \<Rightarrow> string list" where
  "split_on d [] = [[]]"
| "split_on d (x # xs) =
     (if x = d then [] # split_on d xs
      else (case split_on d xs of [] \<Rightarrow> [[x]] | l # ls \<Rightarrow> (x # l) # ls))"

fun join_with :: "string \<Rightarrow> string list \<Rightarrow> string" where
  "join_with sep [] = []"
| "join_with sep [l] = l"
| "join_with sep (l # l' # ls) = l @ sep @ join_with sep (l' # ls)"

definition js_repeat :: "string \<Rightarrow> int \<Rightarrow> string" where
  \<comment> \<open>\<^verbatim>\<open>s.repeat(n)\<close>; JavaScript raises a RangeError for a negative \<open>n\<close>, which the
      callers below never pass (their counters are clamped)\<close>
  "js_repeat s n = concat (replicate (nat n) s)"

definition js_slice :: "string \<Rightarrow> int \<Rightarrow> int \<Rightarrow> string" where
  \<comment> \<open>\<^verbatim>\<open>s.slice(i, j)\<close>, a negative index counting from the end\<close>
  "js_slice s i j =
     (let n = int (length s);
          from = (if i < 0 then max (n + i) 0 else min i n);
          to = (if j < 0 then max (n + j) 0 else min j n)
      in take (nat (to - from)) (drop (nat from) s))"

definition starts_with :: "string \<Rightarrow> string \<Rightarrow> bool" where
  "starts_with s p \<longleftrightarrow> take (length p) s = p"

definition ends_with :: "string \<Rightarrow> string \<Rightarrow> bool" where
  "ends_with s p \<longleftrightarrow> length p \<le> length s \<and> drop (length s - length p) s = p"

definition digit_char :: "nat \<Rightarrow> char" where
  "digit_char d = ''0123456789'' ! d"

function to_string :: "nat \<Rightarrow> string" where
  "to_string n = (if n < 10 then [digit_char n] else to_string (n div 10) @ [digit_char (n mod 10)])"
  by pat_completeness auto
termination
  by (relation "measure id") auto

declare to_string.simps [simp del]

subsection \<open>Replacing a substring\<close>

text \<open>
  \<^verbatim>\<open>text.replace(key, value)\<close> with two strings replaces the first occurrence of \<open>key\<close>,
  and expands the patterns \<^verbatim>\<open>$$\<close>, \<^verbatim>\<open>$&\<close>, \<^verbatim>\<open>$`\<close> and \<^verbatim>\<open>$'\<close> of \<open>value\<close>
  (there is no capture, so \<^verbatim>\<open>$1\<close> and the like stay as they are).
\<close>

fun get_substitution :: "string \<Rightarrow> string \<Rightarrow> string \<Rightarrow> string \<Rightarrow> string" where
  "get_substitution matched pre post [] = []"
| "get_substitution matched pre post [x] = [x]"
| "get_substitution matched pre post (x # y # t) =
     (if x = CHR ''$'' \<and> y = CHR ''$'' then CHR ''$'' # get_substitution matched pre post t
      else if x = CHR ''$'' \<and> y = CHR ''&'' then matched @ get_substitution matched pre post t
      else if x = CHR ''$'' \<and> y = CHR 0x60 then pre @ get_substitution matched pre post t
      else if x = CHR ''$'' \<and> y = CHR 0x27 then post @ get_substitution matched pre post t
      else x # get_substitution matched pre post (y # t))"

fun find_str :: "string \<Rightarrow> string \<Rightarrow> string \<Rightarrow> (string \<times> string) option" where
  "find_str key b [] = (if key = [] then Some (rev b, []) else None)"
| "find_str key b (x # a) =
     (if take (length key) (x # a) = key then Some (rev b, drop (length key) (x # a))
      else find_str key (x # b) a)"

definition replace_str :: "string \<Rightarrow> string \<Rightarrow> string \<Rightarrow> string" where
  "replace_str text key val =
     (case find_str key [] text of
        None \<Rightarrow> text
      | Some (pre, post) \<Rightarrow> pre @ get_substitution key pre post val @ post)"

section \<open>Regular expressions\<close>

text \<open>
  The regular expressions of the source are terms of \<open>regex\<close>, and \<open>m\<close> is a backtracking
  matcher in the order of ECMAScript: it returns every way to match, the one a
  backtracking engine finds first at the head. A state is the text before the position
  (reversed), the text after it, and the captures so far; a capture is kept as the
  reversed texts before its start and before its end. A repetition gives up an
  iteration that consumes nothing. A lookbehind is matched backwards: its body is
  mirrored and run on the mirrored text (captures inside a lookbehind are not recorded;
  the source has none).
\<close>

datatype regex =
    Eps
  | Chr "char \<Rightarrow> bool"
  | Seq regex regex
  | Alt regex regex
  | Star regex
  | LazyStar regex
  | NLook regex
  | NBehind regex
  | Bol
  | Eol
  | Grp nat regex

type_synonym capture = "string \<times> string"

type_synonym mstate = "string \<times> string \<times> (nat \<times> capture) list"

primrec mirror :: "regex \<Rightarrow> regex" where
  "mirror Eps = Eps"
| "mirror (Chr P) = Chr P"
| "mirror (Seq r1 r2) = Seq (mirror r2) (mirror r1)"
| "mirror (Alt r1 r2) = Alt (mirror r1) (mirror r2)"
| "mirror (Star r) = Star (mirror r)"
| "mirror (LazyStar r) = LazyStar (mirror r)"
| "mirror (NLook r) = NBehind (mirror r)"
| "mirror (NBehind r) = NLook (mirror r)"
| "mirror Bol = Eol"
| "mirror Eol = Bol"
| "mirror (Grp n r) = mirror r"

lemma size_mirror: "size (mirror r) \<le> size r"
  by (induction r) auto

function m :: "regex \<Rightarrow> mstate \<Rightarrow> mstate list" where
  "m Eps st = [st]"
| "m (Chr P) (b, a, c) =
     (case a of [] \<Rightarrow> [] | x # a' \<Rightarrow> if P x then [(x # b, a', c)] else [])"
| "m (Seq r1 r2) st = concat (map (m r2) (m r1 st))"
| "m (Alt r1 r2) st = m r1 st @ m r2 st"
| "m (Star r) (b, a, c) =
     concat (map (\<lambda>(b', a', c'). if length a' < length a then m (Star r) (b', a', c') else [])
                 (m r (b, a, c))) @ [(b, a, c)]"
| "m (LazyStar r) (b, a, c) =
     (b, a, c) #
     concat (map (\<lambda>(b', a', c'). if length a' < length a then m (LazyStar r) (b', a', c') else [])
                 (m r (b, a, c)))"
| "m (NLook r) st = (if m r st = [] then [st] else [])"
| "m (NBehind r) (b, a, c) = (if m (mirror r) (a, b, c) = [] then [(b, a, c)] else [])"
| "m Bol (b, a, c) = (if b = [] then [(b, a, c)] else [])"
| "m Eol (b, a, c) = (if a = [] then [(b, a, c)] else [])"
| "m (Grp n r) (b, a, c) =
     map (\<lambda>(b', a', c'). (b', a', AList.update n (b, b') c')) (m r (b, a, c))"
  by pat_completeness auto
termination
proof (relation "(\<lambda>(r, st). size r) <*mlex*> measure (\<lambda>(r, b, a, c). length a)")
  fix r :: regex and b a :: string and c :: "(nat \<times> capture) list"
  have "size (mirror r) < size (NBehind r)"
    using size_mirror [of r] by simp
  then show "((mirror r, a, b, c), NBehind r, b, a, c)
      \<in> (\<lambda>(r, st). size r) <*mlex*> measure (\<lambda>(r, b, a, c). length a)"
    by (simp add: mlex_less)
qed (auto simp: wf_mlex mlex_less mlex_leq)

declare m.simps [simp del]

text \<open>Abbreviations for writing the expressions of the source.\<close>

definition Ch :: "char \<Rightarrow> regex" where
  "Ch x = Chr (\<lambda>c. c = x)"

definition NotCh :: "char \<Rightarrow> regex" where
  "NotCh x = Chr (\<lambda>c. c \<noteq> x)"

definition Any :: regex where
  \<comment> \<open>\<^verbatim>\<open>[\s\S]\<close>\<close>
  "Any = Chr (\<lambda>c. True)"

fun Seqs :: "regex list \<Rightarrow> regex" where
  "Seqs [] = Eps"
| "Seqs [r] = r"
| "Seqs (r # rs) = Seq r (Seqs rs)"

fun Alts :: "regex list \<Rightarrow> regex" where
  "Alts [] = NLook Eps"
| "Alts [r] = r"
| "Alts (r # rs) = Alt r (Alts rs)"

definition Lit :: "string \<Rightarrow> regex" where
  "Lit s = Seqs (map Ch s)"

definition ascii_upper :: "char \<Rightarrow> char" where
  "ascii_upper c =
     (case map_of (zip ''abcdefghijklmnopqrstuvwxyz'' ''ABCDEFGHIJKLMNOPQRSTUVWXYZ'') c of
        None \<Rightarrow> c | Some u \<Rightarrow> u)"

definition LitI :: "string \<Rightarrow> regex" where
  \<comment> \<open>a literal under the flag \<^verbatim>\<open>i\<close>: two characters match when their upper cases are
      the same\<close>
  "LitI s = Seqs (map (\<lambda>x. Chr (\<lambda>c. ascii_upper c = ascii_upper x)) s)"

definition Plus :: "regex \<Rightarrow> regex" where
  "Plus r = Seq r (Star r)"

definition Opt :: "regex \<Rightarrow> regex" where
  "Opt r = Alt r Eps"

fun Times :: "nat \<Rightarrow> regex \<Rightarrow> regex" where
  "Times 0 r = Eps"
| "Times (Suc n) r = Seq r (Times n r)"

definition AtLeast :: "nat \<Rightarrow> regex \<Rightarrow> regex" where
  \<comment> \<open>\<^verbatim>\<open>r{n,}\<close>\<close>
  "AtLeast n r = Seq (Times n r) (Star r)"

subsection \<open>Searching and replacing\<close>

text \<open>
  \<open>search\<close> is \<^verbatim>\<open>RegExp.prototype.exec\<close> on a regex without the flag \<^verbatim>\<open>g\<close>: the
  leftmost position where the expression matches, with the first match there.
\<close>

fun search :: "regex \<Rightarrow> string \<Rightarrow> string \<Rightarrow> (string \<times> mstate) option" where
  "search r b [] = (case m r (b, [], []) of [] \<Rightarrow> None | st # _ \<Rightarrow> Some (b, st))"
| "search r b (x # a) =
     (case m r (b, x # a, []) of [] \<Rightarrow> search r (x # b) a | st # _ \<Rightarrow> Some (b, st))"

definition test :: "regex \<Rightarrow> string \<Rightarrow> bool" where
  "test r s \<longleftrightarrow> search r [] s \<noteq> None"

definition matched_text :: "string \<Rightarrow> string \<Rightarrow> string" where
  \<comment> \<open>the text between a start (the reversed text before it) and an end\<close>
  "matched_text b b' = rev (take (length b' - length b) b')"

definition cap_text :: "capture \<Rightarrow> string" where
  "cap_text g = matched_text (fst g) (snd g)"

text \<open>
  \<open>replace_fn\<close> is \<^verbatim>\<open>text.replace(regex, callback)\<close> for a regex with the flag
  \<^verbatim>\<open>g\<close>. The callback reads and updates the variables it closes over, here the state
  \<open>s\<close>. After an empty match the search moves one character on.
\<close>

function replace_fn ::
  "regex \<Rightarrow> (string \<Rightarrow> 's \<Rightarrow> string \<times> 's) \<Rightarrow> string \<Rightarrow> string \<Rightarrow> 's \<Rightarrow> string \<times> 's" where
  "replace_fn r f b a s =
     (case m r (b, a, []) of
        [] \<Rightarrow>
          (case a of
             [] \<Rightarrow> ([], s)
           | x # a' \<Rightarrow> (let (out, s') = replace_fn r f (x # b) a' s in (x # out, s')))
      | (b', a', c') # _ \<Rightarrow>
          (let (rep, s1) = f (matched_text b b') s in
           if length a' < length a
           then (let (out, s2) = replace_fn r f b' a' s1 in (rep @ out, s2))
           else (case a of
                   [] \<Rightarrow> (rep, s1)
                 | x # a'' \<Rightarrow>
                     (let (out, s2) = replace_fn r f (x # b) a'' s1 in (rep @ x # out, s2)))))"
  by pat_completeness auto
termination
  by (relation "measure (\<lambda>(r, f, b, a, s). length a)") auto

declare replace_fn.simps [simp del]

definition replace_all :: "regex \<Rightarrow> string \<Rightarrow> string \<Rightarrow> string" where
  \<comment> \<open>\<^verbatim>\<open>text.replace(regex, rep)\<close> with the flag \<^verbatim>\<open>g\<close> and a replacement without \<^verbatim>\<open>$\<close>\<close>
  "replace_all r rep text = fst (replace_fn r (\<lambda>_ u. (rep, u)) [] text ())"

definition replace_first :: "regex \<Rightarrow> string \<Rightarrow> string \<Rightarrow> string" where
  \<comment> \<open>\<^verbatim>\<open>text.replace(regex, rep)\<close> without the flag \<^verbatim>\<open>g\<close>, \<open>rep\<close> without \<^verbatim>\<open>$\<close>\<close>
  "replace_first r rep text =
     (case search r [] text of
        None \<Rightarrow> text
      | Some (b, (b', a', c')) \<Rightarrow> rev b @ rep @ a')"

definition match_all :: "regex \<Rightarrow> string \<Rightarrow> string list" where
  \<comment> \<open>\<^verbatim>\<open>text.match(regex) || []\<close> with the flag \<^verbatim>\<open>g\<close>: the matched texts\<close>
  "match_all r text = snd (replace_fn r (\<lambda>mt ms. ([], ms @ [mt])) [] text [])"

section \<open>The formatter\<close>

record format_options =
  tabSize :: nat
  insertSpaces :: bool
  preserveNewlines :: bool
  maxPreserveNewlines :: nat
  wrapLineLength :: nat

definition indent_of :: "format_options \<Rightarrow> string" where
  \<comment> \<open>\<^verbatim>\<open>options.insertSpaces ? ' '.repeat(options.tabSize) : '\t'\<close>\<close>
  "indent_of opts = (if insertSpaces opts then replicate (tabSize opts) CHR '' '' else [CHR 0x09])"

subsection \<open>formatHtmlStructure\<close>

definition is_tag_start :: "char \<Rightarrow> bool" where
  \<comment> \<open>\<^verbatim>\<open>[a-zA-Z:]\<close>\<close>
  "is_tag_start c \<longleftrightarrow> is_letter c \<or> c = CHR '':''"

definition excluded_names :: regex where
  \<comment> \<open>the body of the lookahead of \<^verbatim>\<open>openTags\<close>\<close>
  "excluded_names = Alts [Lit ''/'', Lit ''!'', Lit ''br'', Lit ''hr'', Lit ''img'', Lit ''input'',
       Lit ''link'', Lit ''meta'', Lit ''area'', Lit ''base'', Lit ''col'', Lit ''embed'',
       Lit ''param'', Lit ''source'', Lit ''track'', Lit ''wbr'',
       Seq (Lit ''jsp:'') (Alts [Lit ''include'', Lit ''forward'', Lit ''param'',
         Lit ''setProperty'', Lit ''getProperty'', Lit ''useBean'']),
       Seq (Lit ''c:'') (Alts [Lit ''out'', Lit ''set'', Lit ''remove'', Lit ''param'',
         Lit ''redirect'']),
       Seq (Lit ''fmt:'') (Alts [Lit ''message'', Lit ''formatNumber'', Lit ''formatDate'',
         Lit ''setLocale'', Lit ''setBundle'', Lit ''requestEncoding'', Lit ''setTimeZone'']),
       Seq (Lit ''sql:'') (Alts [Lit ''param'', Lit ''dateParam'', Lit ''setDataSource''])]"

definition openTags :: regex where
  "openTags = Seqs [Bol, Ch CHR ''<'', NLook excluded_names,
     Chr is_tag_start, Star (NotCh CHR ''>''), NotCh CHR ''/'', Ch CHR ''>'', Eol]"

definition closeTags :: regex where
  "closeTags = Seqs [Bol, Lit ''</'', Chr is_tag_start, Star (NotCh CHR ''>''), Ch CHR ''>'', Eol]"

definition selfCloseTags :: regex where
  "selfCloseTags = Seqs [Bol, Ch CHR ''<'', Chr is_tag_start, Star (NotCh CHR ''>''), Lit ''/>'', Eol]"

definition jspTagNames :: regex where
  \<comment> \<open>the group shared by \<^verbatim>\<open>jspOpenTags\<close> and \<^verbatim>\<open>jspCloseTags\<close>\<close>
  "jspTagNames = Alts [
     Seq (Lit ''c:'') (Alts [Lit ''if'', Lit ''choose'', Lit ''when'', Lit ''otherwise'',
       Lit ''forEach'', Lit ''forTokens'', Lit ''catch'', Lit ''import'', Lit ''url'']),
     Seq (Lit ''fmt:'') (Alts [Lit ''bundle'', Lit ''timeZone'']),
     Seq (Lit ''sql:'') (Alts [Lit ''query'', Lit ''update'', Lit ''transaction'']),
     Seq (Lit ''x:'') (Alts [Lit ''parse'', Lit ''if'', Lit ''choose'', Lit ''when'',
       Lit ''otherwise'', Lit ''forEach'', Lit ''transform'']),
     Seq (Lit ''jsp:'') (Alts [Lit ''include'', Lit ''forward'', Lit ''useBean'',
       Lit ''element'', Lit ''body'', Lit ''attribute''])]"

definition jspOpenTags :: regex where
  "jspOpenTags = Seqs [Bol, Ch CHR ''<'', Grp 1 jspTagNames, Star (NotCh CHR ''>''),
     NotCh CHR ''/'', Ch CHR ''>'']"

definition jspCloseTags :: regex where
  "jspCloseTags = Seqs [Bol, Lit ''</'', Grp 1 jspTagNames, Ch CHR ''>'']"

definition close_level :: "int \<Rightarrow> string \<Rightarrow> int" where
  \<comment> \<open>the level a line is emitted at:
      \<^verbatim>\<open>if (closeTags.test(trimmed) || jspCloseTags.test(trimmed)) level = Math.max(0, level - 1)\<close>\<close>
  "close_level level trimmed =
     (if test closeTags trimmed \<or> test jspCloseTags trimmed then max 0 (level - 1) else level)"

definition open_level :: "int \<Rightarrow> string \<Rightarrow> int" where
  \<comment> \<open>the level after the line:
      \<^verbatim>\<open>if (!selfCloseTags.test(trimmed)) if (openTags.test(trimmed) || jspOpenTags.test(trimmed)) level++\<close>\<close>
  "open_level level trimmed =
     (if \<not> test selfCloseTags trimmed
      then (if test openTags trimmed \<or> test jspOpenTags trimmed then level + 1 else level)
      else level)"

definition html_step :: "string \<Rightarrow> int \<times> string list \<Rightarrow> string \<Rightarrow> int \<times> string list" where
  \<comment> \<open>one round of the loop over the lines: the level and the result, before and after\<close>
  "html_step indent st rawLine =
     (let level = fst st; result = snd st; trimmed = trim rawLine in
      if trimmed = [] then (level, result @ [[]])
      else
        let level1 = close_level level trimmed;
            result1 = result @ [js_repeat indent level1 @ trimmed]
        in (open_level level1 trimmed, result1))"

definition formatHtmlStructure :: "string \<Rightarrow> format_options \<Rightarrow> string" where
  "formatHtmlStructure text opts =
     join_with [CHR 0x0A]
       (snd (foldl (html_step (indent_of opts)) (0, []) (split_on CHR 0x0A text)))"

subsection \<open>formatDirective\<close>

datatype js_error = TypeError

definition ws_plus :: regex where
  \<comment> \<open>\<^verbatim>\<open>\s+\<close>\<close>
  "ws_plus = Plus (Chr is_space)"

definition directive_re :: regex where
  \<comment> \<open>\<^verbatim>\<open>/^(<%@\s*\w+)\s+(.*)\s*(%>)$/\<close>\<close>
  "directive_re = Seqs [Bol,
     Grp 1 (Seqs [Lit ''<%@'', Star (Chr is_space), Plus (Chr is_word)]),
     Plus (Chr is_space), Grp 2 (Star (Chr is_dot)), Star (Chr is_space),
     Grp 3 (Lit ''%>''), Eol]"

definition attr_re :: regex where
  \<comment> \<open>\<^verbatim>\<open>/\w+(?::\w+)?="[^"]*"/g\<close>\<close>
  "attr_re = Seqs [Plus (Chr is_word), Opt (Seq (Ch CHR '':'') (Plus (Chr is_word))),
     Lit ''=\"'', Star (NotCh CHR 0x22), Ch CHR 0x22]"

definition directive_content :: "string \<Rightarrow> string" where
  \<comment> \<open>\<^verbatim>\<open>directive.replace(/\s+/g, ' ').trim()\<close>\<close>
  "directive_content directive = trim (replace_all ws_plus '' '' directive)"

definition formatDirective :: "string \<Rightarrow> js_error + string" where
  "formatDirective directive =
     (let content = directive_content directive in
      if length content \<le> 120 then Inr content
      else
        case search directive_re [] content of
          None \<Rightarrow> Inr content
        | Some (b, (b', a', caps)) \<Rightarrow>
            \<comment> \<open>a group that took no part is \<^verbatim>\<open>undefined\<close>: \<^verbatim>\<open>attrs.match\<close> would raise\<close>
            (case map_of caps 2 of
               None \<Rightarrow> Inl TypeError
             | Some g2 \<Rightarrow>
                 let prefix = (case map_of caps 1 of None \<Rightarrow> [] | Some g1 \<Rightarrow> cap_text g1);
                     attrs = cap_text g2;
                     suffix = (case map_of caps 3 of None \<Rightarrow> ''undefined'' | Some g3 \<Rightarrow> cap_text g3);
                     attrPairs = match_all attr_re attrs
                 in if length attrPairs \<le> 1 then Inr content
                    else
                      let lines = prefix # map (\<lambda>attr. ''    '' @ attr) attrPairs;
                          lines' = lines[length lines - 1 := lines ! (length lines - 1) @ '' '' @ suffix]
                      in Inr (join_with [CHR 0x0A] lines')))"

subsection \<open>formatJspComment\<close>

definition formatJspComment :: "string \<Rightarrow> format_options \<Rightarrow> string" where
  "formatJspComment comment opts =
     (let content = trim (js_slice comment 4 (- 4)) in
      if CHR 0x0A \<notin> set content \<and> length content < 80
      then ''<%-- '' @ content @ '' --%>''
      else comment)"

subsection \<open>formatJavaCode\<close>

definition string_re :: regex where
  \<comment> \<open>\<^verbatim>\<open>/"(?:[^"\\]|\\.)*"/g\<close>\<close>
  "string_re = Seqs [Ch CHR 0x22,
     Star (Alt (Chr (\<lambda>c. c \<noteq> CHR 0x22 \<and> c \<noteq> CHR 0x5C)) (Seq (Ch CHR 0x5C) (Chr is_dot))),
     Ch CHR 0x22]"

definition ws_then_nl :: regex where
  \<comment> \<open>\<^verbatim>\<open>\s*\n\<close>\<close>
  "ws_then_nl = Seq (Star (Chr is_space)) (Ch CHR 0x0A)"

definition semi_re :: regex where
  \<comment> \<open>\<^verbatim>\<open>/;(?!\s*\n)/g\<close>\<close>
  "semi_re = Seq (Ch CHR '';'') (NLook ws_then_nl)"

definition lbrace_re :: regex where
  \<comment> \<open>\<^verbatim>\<open>/\{(?!\s*\n)/g\<close>\<close>
  "lbrace_re = Seq (Ch CHR ''{'') (NLook ws_then_nl)"

definition rbrace_before_re :: regex where
  \<comment> \<open>\<^verbatim>\<open>/(?<!\n\s*)\}/g\<close>\<close>
  "rbrace_before_re = Seq (NBehind (Seq (Ch CHR 0x0A) (Star (Chr is_space)))) (Ch CHR ''}'')"

definition rbrace_after_re :: regex where
  \<comment> \<open>\<^verbatim>\<open>/\}(?!\s*(?:else|catch|finally|\n))/g\<close>\<close>
  "rbrace_after_re = Seq (Ch CHR ''}'')
     (NLook (Seq (Star (Chr is_space))
        (Alts [Lit ''else'', Lit ''catch'', Lit ''finally'', Ch CHR 0x0A])))"

definition for_re :: regex where
  \<comment> \<open>\<^verbatim>\<open>/for\s*\([^)]*\)/g\<close>\<close>
  "for_re = Seqs [Lit ''for'', Star (Chr is_space), Ch CHR ''('', Star (NotCh CHR '')''),
     Ch CHR '')'']"

definition brace_level :: "int \<Rightarrow> string \<Rightarrow> int" where
  \<comment> \<open>the level a line of code is emitted at:
      \<^verbatim>\<open>if (trimmed.startsWith('}')) level = Math.max(1, level - 1)\<close>\<close>
  "brace_level level trimmed =
     (if starts_with trimmed ''}'' then max 1 (level - 1) else level)"

definition java_step :: "string \<Rightarrow> int \<times> string list \<Rightarrow> string \<Rightarrow> int \<times> string list" where
  \<comment> \<open>one round of the loop over the lines of the code\<close>
  "java_step indent st rawLine =
     (let level = fst st; result = snd st; trimmed = trim rawLine in
      if trimmed = [] then (level, result @ [[]])
      else
        let level1 = brace_level level trimmed;
            result1 = result @ [js_repeat indent level1 @ trimmed];
            level2 = (if ends_with trimmed ''{'' then level1 + 1 else level1)
        in (level2, result1))"

definition java_breaks :: "string \<Rightarrow> string" where
  \<comment> \<open>the line breaks put in before the code is split into lines\<close>
  "java_breaks code0 =
     (let code1 = replace_all (Ch CHR 0x0D) [CHR 0x0A] (replace_all (Lit [CHR 0x0D, CHR 0x0A]) [CHR 0x0A] code0);
          code2 = replace_all semi_re [CHR '';'', CHR 0x0A] code1;
          code3 = replace_all lbrace_re [CHR ''{'', CHR 0x0A] code2;
          code4 = replace_all rbrace_before_re [CHR 0x0A, CHR ''}''] code3;
          code5 = replace_all rbrace_after_re [CHR ''}'', CHR 0x0A] code4
      in fst (replace_fn for_re
                (\<lambda>mt u. (replace_all (Lit [CHR '';'', CHR 0x0A]) ''; '' mt, u)) [] code5 ()))"

definition java_lines :: "string \<Rightarrow> string \<Rightarrow> int \<times> string list" where
  \<comment> \<open>the loop: the last level and the lines pushed to \<^verbatim>\<open>result\<close>\<close>
  "java_lines code indent = foldl (java_step indent) (1, []) (split_on CHR 0x0A code)"

definition formatJavaCode :: "string \<Rightarrow> string \<Rightarrow> string" where
  "formatJavaCode code indent =
     (let (code0, (stringCounter, stringMap)) =
            replace_fn string_re
              (\<lambda>mt (cnt, mp). let key = ''__STR_'' @ to_string cnt @ ''__''
                              in (key, (cnt + 1, AList.update key mt mp)))
              [] code (0::nat, []);
          formatted = join_with [CHR 0x0A] (snd (java_lines (java_breaks code0) indent))
      in foldl (\<lambda>text (key, val). replace_str text key val) formatted stringMap)"

subsection \<open>formatJspBlock\<close>

definition formatJspBlock :: "string \<Rightarrow> format_options \<Rightarrow> string" where
  "formatJspBlock block opts =
     (let indent = indent_of opts;
          isDecl = starts_with block ''<%!'';
          prefix = (if isDecl then ''<%!'' else ''<%'');
          content = trim (js_slice block (int (length prefix)) (- 2))
      in if CHR 0x0A \<notin> set content \<and> length content < 60 \<and> CHR ''{'' \<notin> set content
            \<and> length (match_all (Ch CHR '';'') content) \<le> 1
         then prefix @ '' '' @ content @ '' %>''
         else prefix @ [CHR 0x0A] @ formatJavaCode content indent @ [CHR 0x0A] @ ''%>'')"

subsection \<open>formatJsp\<close>

record extract_state =
  counter :: nat
  preserveMap :: "(string \<times> string) list"
  thrown :: "js_error option"

definition preserve :: "string \<Rightarrow> string \<Rightarrow> extract_state \<Rightarrow> string \<times> extract_state" where
  \<comment> \<open>the body shared by the callbacks: a fresh key, the value stored under it\<close>
  "preserve name val st =
     (let key = ''__'' @ name @ ''_'' @ to_string (counter st) @ ''__''
      in (key, st\<lparr>counter := counter st + 1, preserveMap := AList.update key val (preserveMap st)\<rparr>))"

definition preserve_directive :: "string \<Rightarrow> extract_state \<Rightarrow> string \<times> extract_state" where
  \<comment> \<open>the callback of the directives; an exception of \<^verbatim>\<open>formatDirective\<close> leaves
      \<^verbatim>\<open>formatJsp\<close>, and is kept in \<open>thrown\<close>\<close>
  "preserve_directive mt st =
     (case formatDirective mt of
        Inr val \<Rightarrow> preserve ''JSP_DIR'' val st
      | Inl e \<Rightarrow> (let key = ''__JSP_DIR_'' @ to_string (counter st) @ ''__''
                 in (key, st\<lparr>counter := counter st + 1,
                      thrown := (case thrown st of None \<Rightarrow> Some e | Some e' \<Rightarrow> Some e')\<rparr>)))"

definition comment_re :: regex where
  "comment_re = Seqs [Lit ''<%--'', LazyStar Any, Lit ''--%>'']"

definition decl_re :: regex where
  "decl_re = Seqs [Lit ''<%!'', LazyStar Any, Lit ''%>'']"

definition expr_re :: regex where
  "expr_re = Seqs [Lit ''<%='', LazyStar Any, Lit ''%>'']"

definition scriptlet_re :: regex where
  "scriptlet_re = Seqs [Lit ''<%'', NLook (Chr (\<lambda>c. c \<in> set ''=!@-'')), LazyStar Any, Lit ''%>'']"

definition dir_re :: regex where
  "dir_re = Seqs [Lit ''<%@'', LazyStar Any, Lit ''%>'']"

definition el_re :: regex where
  "el_re = Seqs [Lit ''${'', Star (NotCh CHR ''}''), Ch CHR ''}'']"

definition del_re :: regex where
  "del_re = Seqs [Lit ''#{'', Star (NotCh CHR ''}''), Ch CHR ''}'']"

definition script_re :: regex where
  "script_re = Seqs [LitI ''<script'', LazyStar Any, LitI ''</script>'']"

definition style_re :: regex where
  "style_re = Seqs [LitI ''<style'', LazyStar Any, LitI ''</style>'']"

definition extract_regions :: "string \<Rightarrow> format_options \<Rightarrow> string \<times> extract_state" where
  \<comment> \<open>the nine replacements that put a placeholder for every protected region\<close>
  "extract_regions text0 opts =
     (let st0 = \<lparr>counter = 0, preserveMap = [], thrown = None\<rparr>;
          (text1, st1) = replace_fn comment_re
             (\<lambda>mt. preserve ''JSP_COMMENT'' (formatJspComment mt opts)) [] text0 st0;
          (text2, st2) = replace_fn decl_re
             (\<lambda>mt. preserve ''JSP_DECL'' (formatJspBlock mt opts)) [] text1 st1;
          (text3, st3) = replace_fn expr_re
             (\<lambda>mt. preserve ''JSP_EXPR'' (trim (replace_all ws_plus '' '' mt))) [] text2 st2;
          (text4, st4) = replace_fn scriptlet_re
             (\<lambda>mt. preserve ''JSP_SCRIPT'' (formatJspBlock mt opts)) [] text3 st3;
          (text5, st5) = replace_fn dir_re preserve_directive [] text4 st4;
          (text6, st6) = replace_fn el_re (\<lambda>mt. preserve ''EL'' mt) [] text5 st5;
          (text7, st7) = replace_fn del_re (\<lambda>mt. preserve ''DEL'' mt) [] text6 st6;
          (text8, st8) = replace_fn script_re (\<lambda>mt. preserve ''SCRIPT'' mt) [] text7 st7
      in replace_fn style_re (\<lambda>mt. preserve ''STYLE'' mt) [] text8 st8)"

definition restore :: "(string \<times> string) list \<Rightarrow> string \<Rightarrow> string" where
  \<comment> \<open>\<^verbatim>\<open>for (const [key, value] of preserveMap) text = text.replace(key, value)\<close>\<close>
  "restore pm text = foldl (\<lambda>t (key, val). replace_str t key val) text pm"

definition cap_newlines :: "format_options \<Rightarrow> string \<Rightarrow> string" where
  "cap_newlines opts text =
     (if preserveNewlines opts
      then replace_all (AtLeast (maxPreserveNewlines opts + 2) (Ch CHR 0x0A))
             (replicate (maxPreserveNewlines opts + 1) CHR 0x0A) text
      else text)"

definition end_newline :: "string \<Rightarrow> string" where
  \<comment> \<open>\<^verbatim>\<open>text.replace(/\s+$/, '\n')\<close>\<close>
  "end_newline text = replace_first (Seq ws_plus Eol) [CHR 0x0A] text"

definition default_options :: format_options where
  \<comment> \<open>the defaults of \<^verbatim>\<open>formatRange\<close>, with an editor set to four spaces\<close>
  "default_options = \<lparr>tabSize = 4, insertSpaces = True, preserveNewlines = True,
     maxPreserveNewlines = 2, wrapLineLength = 120\<rparr>"

definition formatJsp :: "string \<Rightarrow> format_options \<Rightarrow> js_error + string" where
  "formatJsp text0 opts =
     (let (text1, st) = extract_regions text0 opts in
      case thrown st of
        Some e \<Rightarrow> Inl e
      | None \<Rightarrow>
          Inr (end_newline (cap_newlines opts
                 (restore (preserveMap st) (formatHtmlStructure text1 opts)))))"

section \<open>The loops keep their counters in range\<close>

lemma close_level_nonneg: "0 \<le> level \<Longrightarrow> 0 \<le> close_level level trimmed"
  by (simp add: close_level_def)

lemma open_level_nonneg: "0 \<le> level \<Longrightarrow> 0 \<le> open_level level trimmed"
  by (simp add: open_level_def)

lemma html_step_nonneg: "0 \<le> fst st \<Longrightarrow> 0 \<le> fst (html_step indent st l)"
  by (simp add: html_step_def Let_def close_level_nonneg open_level_nonneg)

lemma html_loop_nonneg: "0 \<le> fst st \<Longrightarrow> 0 \<le> fst (foldl (html_step indent) st ls)"
  by (induction ls arbitrary: st) (simp_all add: html_step_nonneg)

text \<open>
  C3. The level of \<^verbatim>\<open>formatHtmlStructure\<close> starts at 0; after any number of the lines
  of any text it is not negative, and the level a line is emitted at, after the
  decrement of a closing tag, is not negative.
\<close>

theorem html_level_never_negative:
  "fst (foldl (html_step indent) (0, []) []) = 0 \<and>
   (\<forall>k \<le> length (split_on CHR 0x0A text).
      0 \<le> fst (foldl (html_step indent) (0, []) (take k (split_on CHR 0x0A text)))) \<and>
   (\<forall>k < length (split_on CHR 0x0A text).
      0 \<le> close_level (fst (foldl (html_step indent) (0, []) (take k (split_on CHR 0x0A text))))
             (trim (split_on CHR 0x0A text ! k)))"
  by (simp add: html_loop_nonneg close_level_nonneg)

theorem html_level_never_negative_witness:
  "fst (foldl (html_step ''  '') (0, []) (take 2 (split_on CHR 0x0A ''</div>\<newline></p>''))) = 0 \<and>
   close_level (fst (foldl (html_step ''  '') (0, []) (take 1 (split_on CHR 0x0A ''</div>\<newline></p>''))))
      (trim (split_on CHR 0x0A ''</div>\<newline></p>'' ! 1)) = 0 \<and>
   formatHtmlStructure ''</div>\<newline></p>'' default_options = ''</div>\<newline></p>''"
proof -
  have a: "fst (foldl (html_step ''  '') (0, []) (take 2 (split_on CHR 0x0A ''</div>\<newline></p>''))) = 0"
    by code_simp
  have b: "close_level (fst (foldl (html_step ''  '') (0, []) (take 1 (split_on CHR 0x0A ''</div>\<newline></p>''))))
      (trim (split_on CHR 0x0A ''</div>\<newline></p>'' ! 1)) = 0"
    by code_simp
  have c: "formatHtmlStructure ''</div>\<newline></p>'' default_options = ''</div>\<newline></p>''"
    by code_simp
  from html_level_never_negative [of "''  ''" "''</div>\<newline></p>''"] a b c show ?thesis
    by simp
qed








section \<open>The formatter at given inputs\<close>

text \<open>
  C5. The text \<^verbatim>\<open>a\<close> ends in a character that is not white space; \<^verbatim>\<open>formatJsp\<close>
  returns it as it is, with no newline at its end.
\<close>

theorem formatJsp_no_final_newline:
  "formatJsp ''a'' default_options = Inr ''a''"
  by code_simp

text \<open>
  C2. The expression \<^verbatim>\<open>${a}\<close> inside a script block does not come back: the
  placeholder of the expression is left in the output.
\<close>

theorem formatJsp_el_in_script_lost:
  "formatJsp ''<script>${a}</script>'' default_options = Inr ''<script>__EL_0__</script>''"
  by code_simp

section \<open>Directives\<close>

definition scenario_directive :: string where
  "scenario_directive =
     ''<%@ page language=\"java\" contentType=\"text/html; charset=UTF-8\" pageEncoding=\"UTF-8\" session=\"true\" %>''"

definition scenario_multi_line :: string where
  \<comment> \<open>the form that has the opener, one attribute a line, and the closer after the last\<close>
  "scenario_multi_line =
     ''<%@ page\<newline>    language=\"java\"\<newline>    contentType=\"text/html; charset=UTF-8\"\<newline>    pageEncoding=\"UTF-8\"\<newline>    session=\"true\" %>''"

definition long_directive :: string where
  \<comment> \<open>the directive of the scenario with one more attribute: 125 characters\<close>
  "long_directive =
     ''<%@ page language=\"java\" contentType=\"text/html; charset=UTF-8\" pageEncoding=\"UTF-8\" session=\"true\" errorPage=\"/error.jsp\" %>''"

definition long_multi_line :: string where
  "long_multi_line =
     ''<%@ page\<newline>    language=\"java\"\<newline>    contentType=\"text/html; charset=UTF-8\"\<newline>    pageEncoding=\"UTF-8\"\<newline>    session=\"true\"\<newline>    errorPage=\"/error.jsp\" %>''"

lemma scenario_directive_eval: "formatDirective scenario_directive = Inr scenario_directive"
  unfolding scenario_directive_def by code_simp

lemma long_directive_eval: "formatDirective long_directive = Inr long_multi_line"
  unfolding long_directive_def long_multi_line_def by code_simp

text \<open>
  C4, as the claim states it: the directive of the scenario is not given the multi-line
  form.
\<close>

theorem scenario_directive_not_multi_line:
  "formatDirective scenario_directive \<noteq> Inr scenario_multi_line"
proof -
  have "scenario_directive \<noteq> scenario_multi_line"
    unfolding scenario_directive_def scenario_multi_line_def by simp
  then show ?thesis by (simp add: scenario_directive_eval)
qed

text \<open>
  C4, amended. The directive of the scenario is 102 characters long, not more than 120,
  and \<^verbatim>\<open>formatDirective\<close> returns it as it is, on one line. With a fifth attribute
  the directive is 125 characters long and gets the multi-line form: the opener on a
  line of its own, every attribute on a line of its own after four spaces, the closer
  after the last attribute.
\<close>

theorem scenario_directive_single_line:
  "length scenario_directive = 102 \<and>
   formatDirective scenario_directive = Inr scenario_directive \<and>
   length long_directive = 125 \<and>
   formatDirective long_directive = Inr long_multi_line"
proof -
  have "length scenario_directive = 102"
    unfolding scenario_directive_def by simp
  moreover have "length long_directive = 125"
    unfolding long_directive_def by simp
  ultimately show ?thesis
    by (simp add: scenario_directive_eval long_directive_eval)
qed

section \<open>Short scripting blocks\<close>

lemma m_Ch:
  "m (Ch x) (b, a, c) = (case a of [] \<Rightarrow> [] | y # a' \<Rightarrow> if y = x then [(y # b, a', c)] else [])"
  by (simp add: Ch_def m.simps)

lemma collect_Ch:
  "snd (replace_fn (Ch x) (\<lambda>mt ms. ([], ms @ [mt])) b a ms)
     = ms @ map (\<lambda>y. [y]) (filter (\<lambda>y. y = x) a)"
proof (induction a arbitrary: b ms)
  case Nil
  show ?case
    by (subst replace_fn.simps) (simp add: m_Ch)
next
  case (Cons y a)
  show ?case
    by (subst replace_fn.simps)
       (simp add: m_Ch matched_text_def split_beta Cons.IH)
qed

lemma match_all_Ch: "match_all (Ch x) s = map (\<lambda>y. [y]) (filter (\<lambda>y. y = x) s)"
  by (simp add: match_all_def collect_Ch)

lemma js_slice_inner:
  assumes "q \<noteq> []"
  shows "js_slice (p @ inner @ q) (int (length p)) (- int (length q)) = inner"
proof -
  have "int (length p) + int (length inner) \<le> 0 \<Longrightarrow> inner = []"
    by (cases inner) auto
  with assms show ?thesis
    by (auto simp: js_slice_def Let_def min_def max_def)
qed

definition short_statement :: "string \<Rightarrow> bool" where
  \<comment> \<open>no line break, under 60 characters, no opening brace, at most one \<^verbatim>\<open>;\<close>\<close>
  "short_statement content \<longleftrightarrow>
     CHR 0x0A \<notin> set content \<and> length content < 60 \<and> CHR ''{'' \<notin> set content \<and>
     length (filter (\<lambda>c. c = CHR '';'') content) \<le> 1"

lemma formatJspBlock_short:
  assumes "short_statement (trim (js_slice block (int (length prefix)) (- 2)))"
    and "prefix = (if starts_with block ''<%!'' then ''<%!'' else ''<%'')"
  shows "formatJspBlock block opts
           = prefix @ '' '' @ trim (js_slice block (int (length prefix)) (- 2)) @ '' %>''"
  using assms
  by (simp add: formatJspBlock_def Let_def short_statement_def match_all_Ch del: One_nat_def)

text \<open>
  C7. A scriptlet \<^verbatim>\<open><% inner %>\<close> or a declaration \<^verbatim>\<open><%! inner %>\<close> whose trimmed
  content has no line break, is under 60 characters long, has no opening brace and at
  most one \<^verbatim>\<open>;\<close> comes back from \<^verbatim>\<open>formatJspBlock\<close> as the delimiters around the
  unchanged content, on one line.
\<close>

theorem short_block_stays_on_one_line:
  assumes "short_statement (trim inner)"
  shows "formatJspBlock (''<%!'' @ inner @ ''%>'') opts = ''<%! '' @ trim inner @ '' %>'' \<and>
         (\<not> starts_with inner ''!'' \<longrightarrow>
            formatJspBlock (''<%'' @ inner @ ''%>'') opts = ''<% '' @ trim inner @ '' %>'') \<and>
         CHR 0x0A \<notin> set (''<%! '' @ trim inner @ '' %>'') \<and>
         CHR 0x0A \<notin> set (''<% '' @ trim inner @ '' %>'')"
proof -
  have d: "js_slice (''<%!'' @ inner @ ''%>'') (int (length ''<%!'')) (- 2) = inner"
    using js_slice_inner [where p = "''<%!''" and inner = inner and q = "''%>''"] by simp
  have "starts_with (''<%!'' @ inner @ ''%>'') ''<%!''"
    by (simp add: starts_with_def)
  then have decl: "formatJspBlock (''<%!'' @ inner @ ''%>'') opts = ''<%! '' @ trim inner @ '' %>''"
    using formatJspBlock_short [of "''<%!'' @ inner @ ''%>''" "''<%!''" opts] d assms
    by simp
  have scriptlet: "formatJspBlock (''<%'' @ inner @ ''%>'') opts = ''<% '' @ trim inner @ '' %>''"
    if n: "\<not> starts_with inner ''!''"
  proof -
    have s: "js_slice (''<%'' @ inner @ ''%>'') (int (length ''<%'')) (- 2) = inner"
      using js_slice_inner [where p = "''<%''" and inner = inner and q = "''%>''"] by simp
    have "\<not> starts_with (''<%'' @ inner @ ''%>'') ''<%!''"
      using n by (cases inner) (simp_all add: starts_with_def)
    then show ?thesis
      using formatJspBlock_short [of "''<%'' @ inner @ ''%>''" "''<%''" opts] s assms
      by simp
  qed
  have "CHR 0x0A \<notin> set (trim inner)"
    using assms by (simp add: short_statement_def)
  with decl scriptlet show ?thesis by simp
qed

theorem short_block_stays_on_one_line_witness:
  "short_statement (trim '' int x = 1; '') \<and>
   formatJspBlock ''<% int x = 1; %>'' default_options = ''<% int x = 1; %>'' \<and>
   formatJsp ''<% int x = 1; %>'' default_options = Inr ''<% int x = 1; %>''"
proof -
  have t: "trim '' int x = 1; '' = ''int x = 1;''"
    by code_simp
  have h: "short_statement (trim '' int x = 1; '')"
    unfolding t short_statement_def by simp
  have n: "\<not> starts_with '' int x = 1; '' ''!''"
    by (simp add: starts_with_def)
  have "formatJspBlock (''<%'' @ '' int x = 1; '' @ ''%>'') default_options
          = ''<% '' @ trim '' int x = 1; '' @ '' %>''"
    using short_block_stays_on_one_line [OF h, of default_options] n by blast
  then have b: "formatJspBlock ''<% int x = 1; %>'' default_options = ''<% int x = 1; %>''"
    unfolding t by simp
  have j: "formatJsp ''<% int x = 1; %>'' default_options = Inr ''<% int x = 1; %>''"
    by code_simp
  from h b j show ?thesis by simp
qed

section \<open>Captures of a match\<close>

definition has_cap :: "nat \<Rightarrow> mstate \<Rightarrow> bool" where
  "has_cap n st \<longleftrightarrow> map_of (snd (snd st)) n \<noteq> None"

lemma has_cap_update: "has_cap n (b, a, AList.update k v c) \<longleftrightarrow> k = n \<or> has_cap n (b, a, c)"
  by (auto simp: has_cap_def update_conv')

lemma has_cap_caps: "has_cap n (b, a, c) \<longleftrightarrow> has_cap n (b', a', c)"
  by (simp add: has_cap_def)

lemma m_keeps_caps: "st' \<in> set (m r st) \<Longrightarrow> has_cap n st \<Longrightarrow> has_cap n st'"
proof (induction r st arbitrary: st' rule: m.induct)
  case (1 st)
  then show ?case by (simp add: m.simps)
next
  case (2 P b a c)
  then show ?case by (auto simp: m.simps has_cap_def split: list.splits if_splits)
next
  case (3 r1 r2 st)
  from "3.prems"(1) obtain st1 where a: "st1 \<in> set (m r1 st)" and b: "st' \<in> set (m r2 st1)"
    by (auto simp: m.simps)
  from "3.IH"(1) [OF a "3.prems"(2)] have "has_cap n st1" .
  from "3.IH"(2) [OF a b this] show ?case .
next
  case (4 r1 r2 st)
  from "4.prems"(1) have "st' \<in> set (m r1 st) \<or> st' \<in> set (m r2 st)" by (simp add: m.simps)
  then show ?case
    using "4.IH"(1) [OF _ "4.prems"(2)] "4.IH"(2) [OF _ "4.prems"(2)] by blast
next
  case (5 r b a c)
  from "5.prems"(1) consider
      (stay) "st' = (b, a, c)"
    | (step) b' a' c' where "(b', a', c') \<in> set (m r (b, a, c))" "length a' < length a"
        "st' \<in> set (m (Star r) (b', a', c'))"
    by (auto simp: m.simps(5) [of r b a c] split: if_splits)
  then show ?case
  proof cases
    case stay
    with "5.prems"(2) show ?thesis by simp
  next
    case step
    from "5.IH"(1) [OF step(1) "5.prems"(2)] have "has_cap n (b', a', c')" .
    from "5.IH"(2) [OF step(1) refl refl step(2) step(3) this] show ?thesis .
  qed
next
  case (6 r b a c)
  from "6.prems"(1) consider
      (stay) "st' = (b, a, c)"
    | (step) b' a' c' where "(b', a', c') \<in> set (m r (b, a, c))" "length a' < length a"
        "st' \<in> set (m (LazyStar r) (b', a', c'))"
    by (auto simp: m.simps(6) [of r b a c] split: if_splits)
  then show ?case
  proof cases
    case stay
    with "6.prems"(2) show ?thesis by simp
  next
    case step
    from "6.IH"(1) [OF step(1) "6.prems"(2)] have "has_cap n (b', a', c')" .
    from "6.IH"(2) [OF step(1) refl refl step(2) step(3) this] show ?thesis .
  qed
next
  case (7 r st)
  then show ?case by (auto simp: m.simps split: if_splits)
next
  case (8 r b a c)
  then show ?case by (auto simp: m.simps split: if_splits)
next
  case (9 b a c)
  then show ?case by (auto simp: m.simps split: if_splits)
next
  case (10 b a c)
  then show ?case by (auto simp: m.simps split: if_splits)
next
  case (11 k r b a c)
  from "11.prems"(1) obtain b' a' c' where
    a: "(b', a', c') \<in> set (m r (b, a, c))" and
    b: "st' = (b', a', AList.update k (b, b') c')"
    by (auto simp: m.simps)
  from "11.IH" [OF a "11.prems"(2)] have "has_cap n (b', a', c')" .
  with b show ?case by (simp add: has_cap_update)
qed

lemma m_Grp_cap: "st' \<in> set (m (Grp n r) st) \<Longrightarrow> has_cap n st'"
  by (cases st) (auto simp: m.simps has_cap_update)

lemma m_Seq_iff: "st' \<in> set (m (Seq r1 r2) st) \<longleftrightarrow> (\<exists>st1 \<in> set (m r1 st). st' \<in> set (m r2 st1))"
  by (auto simp: m.simps)

lemma search_Some:
  "search r b a = Some (b0, st') \<Longrightarrow> \<exists>b1 a1. st' \<in> set (m r (b1, a1, []))"
proof (induction a arbitrary: b)
  case Nil
  then obtain rest where "m r (b, [], []) = st' # rest"
    by (auto split: list.splits)
  then have "st' \<in> set (m r (b, [], []))" by simp
  then show ?case by blast
next
  case (Cons x a)
  show ?case
  proof (cases "m r (b, x # a, [])")
    case Nil
    with Cons.prems have "search r (x # b) a = Some (b0, st')" by simp
    then show ?thesis by (rule Cons.IH)
  next
    case (Cons st rest)
    with Cons.prems have "st' = st" by simp
    with Cons have "st' \<in> set (m r (b, x # a, []))" by simp
    then show ?thesis by blast
  qed
qed

lemma directive_re_caps:
  assumes "st' \<in> set (m directive_re st)"
  shows "has_cap 2 st'"
proof -
  let ?tail = "Seqs [Star (Chr is_space), Grp 3 (Lit ''%>''), Eol]"
  let ?g2 = "Grp 2 (Star (Chr is_dot))"
  let ?g1 = "Grp 1 (Seqs [Lit ''<%@'', Star (Chr is_space), Plus (Chr is_word)])"
  have "directive_re = Seq Bol (Seq ?g1 (Seq (Plus (Chr is_space)) (Seq ?g2 ?tail)))"
    by (simp add: directive_re_def)
  with assms have "st' \<in> set (m (Seq Bol (Seq ?g1 (Seq (Plus (Chr is_space)) (Seq ?g2 ?tail)))) st)"
    by simp
  then obtain s1 where "st' \<in> set (m (Seq ?g1 (Seq (Plus (Chr is_space)) (Seq ?g2 ?tail))) s1)"
    unfolding m_Seq_iff [of _ Bol] by blast
  then obtain s2 where "st' \<in> set (m (Seq (Plus (Chr is_space)) (Seq ?g2 ?tail)) s2)"
    unfolding m_Seq_iff [of _ ?g1] by blast
  then obtain s3 where "st' \<in> set (m (Seq ?g2 ?tail) s3)"
    unfolding m_Seq_iff [of _ "Plus (Chr is_space)"] by blast
  then obtain s4 where a: "s4 \<in> set (m ?g2 s3)" and b: "st' \<in> set (m ?tail s4)"
    unfolding m_Seq_iff [of _ ?g2] by blast
  from a have "has_cap 2 s4" by (rule m_Grp_cap)
  with b show ?thesis by (rule m_keeps_caps)
qed


section \<open>A match moves forward\<close>

lemma m_suffix_state: "st' \<in> set (m r st) \<Longrightarrow> \<exists>u. fst (snd st) = u @ fst (snd st')"
proof (induction r st arbitrary: st' rule: m.induct)
  case (1 st)
  then show ?case by (simp add: m.simps)
next
  case (2 P b a c)
  then show ?case by (auto simp: m.simps split: list.splits if_splits)
next
  case (3 r1 r2 st)
  from "3.prems" obtain st1 where s1: "st1 \<in> set (m r1 st)" and s2: "st' \<in> set (m r2 st1)"
    by (auto simp: m.simps)
  from "3.IH"(1) [OF s1] obtain u where "fst (snd st) = u @ fst (snd st1)" by blast
  moreover from "3.IH"(2) [OF s1 s2] obtain v where "fst (snd st1) = v @ fst (snd st')" by blast
  ultimately show ?case by simp
next
  case (4 r1 r2 st)
  from "4.prems" have "st' \<in> set (m r1 st) \<or> st' \<in> set (m r2 st)"
    by (simp add: m.simps)
  then show ?case using "4.IH" by blast
next
  case (5 r b a c)
  from "5.prems" consider
      (stay) "st' = (b, a, c)"
    | (step) b1 a1 c1 where "(b1, a1, c1) \<in> set (m r (b, a, c))" "length a1 < length a"
        "st' \<in> set (m (Star r) (b1, a1, c1))"
    by (auto simp: m.simps(5) [of r b a c] split: if_splits)
  then show ?case
  proof cases
    case stay
    then show ?thesis by simp
  next
    case step
    from "5.IH"(1) [OF step(1)] obtain u where "a = u @ a1" by auto
    moreover from "5.IH"(2) [OF step(1) refl refl step(2) step(3)]
    obtain v where "a1 = v @ fst (snd st')" by auto
    ultimately show ?thesis by simp
  qed
next
  case (6 r b a c)
  from "6.prems" consider
      (stay) "st' = (b, a, c)"
    | (step) b1 a1 c1 where "(b1, a1, c1) \<in> set (m r (b, a, c))" "length a1 < length a"
        "st' \<in> set (m (LazyStar r) (b1, a1, c1))"
    by (auto simp: m.simps(6) [of r b a c] split: if_splits)
  then show ?case
  proof cases
    case stay
    then show ?thesis by simp
  next
    case step
    from "6.IH"(1) [OF step(1)] obtain u where "a = u @ a1" by auto
    moreover from "6.IH"(2) [OF step(1) refl refl step(2) step(3)]
    obtain v where "a1 = v @ fst (snd st')" by auto
    ultimately show ?thesis by simp
  qed
next
  case (7 r st)
  then show ?case by (auto simp: m.simps split: if_splits)
next
  case (8 r b a c)
  then show ?case by (auto simp: m.simps split: if_splits)
next
  case (9 b a c)
  then show ?case by (auto simp: m.simps split: if_splits)
next
  case (10 b a c)
  then show ?case by (auto simp: m.simps split: if_splits)
next
  case (11 k r b a c)
  from "11.prems" obtain b1 a1 c1 where a: "(b1, a1, c1) \<in> set (m r (b, a, c))"
    and b: "fst (snd st') = a1"
    by (auto simp: m.simps)
  from "11.IH" [OF a] b show ?case by simp
qed

lemma m_suffix: "(b', a', c') \<in> set (m r (b, a, c)) \<Longrightarrow> \<exists>u. a = u @ a'"
  using m_suffix_state [of "(b', a', c')" r "(b, a, c)"] by simp

lemma m_progress:
  assumes "(b', a', c') \<in> set (m r (b, a, c))"
  shows "length a' < length a \<longleftrightarrow> a' \<noteq> a"
proof -
  from m_suffix [OF assms] obtain u where "a = u @ a'" by blast
  then show ?thesis by (cases u) auto
qed

section \<open>The fallback of formatDirective\<close>

definition attr_pairs :: "string \<Rightarrow> string list" where
  \<comment> \<open>the attribute pairs \<^verbatim>\<open>formatDirective\<close> recognises in a collapsed directive: none
      when the directive has not the shape \<^verbatim>\<open><%@ name attrs %>\<close>\<close>
  "attr_pairs content =
     (case search directive_re [] content of
        None \<Rightarrow> []
      | Some (b, (b', a', caps)) \<Rightarrow>
          (case map_of caps 2 of None \<Rightarrow> [] | Some g \<Rightarrow> match_all attr_re (cap_text g)))"

definition quoted_directive :: string where
  \<comment> \<open>attributes in single quotes, on two lines\<close>
  "quoted_directive =
     ''<%@ page\<newline>  language='java' contentType='text/html; charset=UTF-8' pageEncoding='UTF-8' session='true' errorPage='/error.jsp' %>''"

definition quoted_collapsed :: string where
  "quoted_collapsed =
     ''<%@ page language='java' contentType='text/html; charset=UTF-8' pageEncoding='UTF-8' session='true' errorPage='/error.jsp' %>''"

definition unquoted_directive :: string where
  \<comment> \<open>an attribute without quotes among four well-formed ones, on one line\<close>
  "unquoted_directive =
     ''<%@ page language=\"java\" contentType=\"text/html; charset=UTF-8\" pageEncoding=\"UTF-8\" session=true errorPage=\"/error.jsp\" %>''"

definition unquoted_result :: string where
  "unquoted_result =
     ''<%@ page\<newline>    language=\"java\"\<newline>    contentType=\"text/html; charset=UTF-8\"\<newline>    pageEncoding=\"UTF-8\"\<newline>    errorPage=\"/error.jsp\" %>''"

lemma search_directive_caps:
  assumes "search directive_re [] content = Some (b, (b', a', caps))"
  shows "map_of caps 2 \<noteq> None"
proof -
  from search_Some [OF assms] obtain b1 a1 where
    "(b', a', caps) \<in> set (m directive_re (b1, a1, []))" by blast
  then have "has_cap 2 (b', a', caps)" by (rule directive_re_caps)
  then show ?thesis by (simp add: has_cap_def)
qed

lemma formatDirective_total: "\<exists>r. formatDirective d = Inr r"
proof (cases "search directive_re [] (directive_content d)")
  case None
  then show ?thesis by (simp add: formatDirective_def Let_def)
next
  case (Some found)
  obtain b b' a' caps where f: "found = (b, (b', a', caps))"
    by (metis prod_cases4)
  with Some search_directive_caps obtain g where "map_of caps 2 = Some g"
    by blast
  with Some f show ?thesis
    by (simp add: formatDirective_def Let_def)
qed

lemma formatDirective_few_pairs:
  assumes "length (attr_pairs (directive_content d)) \<le> 1"
  shows "formatDirective d = Inr (directive_content d)"
proof (cases "search directive_re [] (directive_content d)")
  case None
  then show ?thesis by (simp add: formatDirective_def Let_def)
next
  case (Some found)
  obtain b b' a' caps where f: "found = (b, (b', a', caps))"
    by (metis prod_cases4)
  with Some search_directive_caps obtain g where a: "map_of caps 2 = Some g"
    by blast
  with Some f assms have "length (match_all attr_re (cap_text g)) \<le> 1"
    by (simp add: attr_pairs_def)
  with Some f a show ?thesis
    by (simp add: formatDirective_def Let_def del: One_nat_def)
qed

lemma quoted_content: "directive_content quoted_directive = quoted_collapsed"
  unfolding quoted_directive_def quoted_collapsed_def by code_simp

lemma quoted_pairs: "attr_pairs quoted_collapsed = []"
  unfolding quoted_collapsed_def by code_simp

lemma quoted_length: "120 < length quoted_collapsed"
  unfolding quoted_collapsed_def by simp

lemma unquoted_content: "directive_content unquoted_directive = unquoted_directive"
  unfolding unquoted_directive_def by code_simp

lemma unquoted_eval: "formatDirective unquoted_directive = Inr unquoted_result"
  unfolding unquoted_directive_def unquoted_result_def by code_simp

text \<open>
  C6, as the claim states it. A directive with its attributes in single quotes, on two
  lines, is over 120 characters long when collapsed and has no attribute pair of the
  pattern; \<^verbatim>\<open>formatDirective\<close> returns the collapsed line, not the block as it was. A
  directive of one line with four well-formed attributes and one without quotes is given
  the multi-line form, and the attribute without quotes is left out.
\<close>

theorem malformed_directive_changed:
  "120 < length (directive_content quoted_directive) \<and>
   attr_pairs (directive_content quoted_directive) = [] \<and>
   formatDirective quoted_directive = Inr quoted_collapsed \<and>
   quoted_collapsed \<noteq> quoted_directive \<and>
   120 < length (directive_content unquoted_directive) \<and>
   directive_content unquoted_directive = unquoted_directive \<and>
   formatDirective unquoted_directive = Inr unquoted_result \<and>
   unquoted_result \<noteq> unquoted_directive"
proof -
  have f1: "formatDirective quoted_directive = Inr quoted_collapsed"
    using formatDirective_few_pairs [of quoted_directive]
    by (simp add: quoted_content quoted_pairs)
  have n1: "quoted_collapsed \<noteq> quoted_directive"
    unfolding quoted_directive_def quoted_collapsed_def by simp
  have l2: "120 < length unquoted_directive"
    unfolding unquoted_directive_def by simp
  have n2: "unquoted_result \<noteq> unquoted_directive"
    unfolding unquoted_directive_def unquoted_result_def by simp
  from f1 n1 l2 n2 show ?thesis
    by (simp add: quoted_content quoted_pairs quoted_length unquoted_content unquoted_eval)
qed

text \<open>
  C6, amended. \<^verbatim>\<open>formatDirective\<close> raises no exception on any string. Where the
  collapsed content is over 120 characters long and at most one attribute pair is
  recognised in it (the shape \<^verbatim>\<open><%@ name attrs %>\<close> is not there, or its attributes
  hold fewer than two pairs of the pattern), \<^verbatim>\<open>formatDirective\<close> returns the collapsed
  content, on one line.
\<close>

theorem formatDirective_fallback:
  "(\<exists>r. formatDirective d = Inr r) \<and>
   (120 < length (directive_content d) \<and> length (attr_pairs (directive_content d)) \<le> 1
      \<longrightarrow> formatDirective d = Inr (directive_content d))"
  using formatDirective_total formatDirective_few_pairs by blast

theorem formatDirective_fallback_witness:
  "120 < length (directive_content quoted_directive) \<and>
   length (attr_pairs (directive_content quoted_directive)) \<le> 1 \<and>
   formatDirective quoted_directive = Inr (directive_content quoted_directive)"
  using formatDirective_fallback [of quoted_directive]
  by (simp add: quoted_content quoted_pairs quoted_length)

section \<open>Matching at the start of a text\<close>

lemma m_Seq_Nil: "m r1 st = [] \<Longrightarrow> m (Seq r1 r2) st = []"
  by (simp add: m.simps)

lemma m_Seq_single: "m r1 st = [st1] \<Longrightarrow> m (Seq r1 r2) st = m r2 st1"
  by (simp add: m.simps)

lemma m_Ch_Cons:
  "m (Ch x) (b, y # a, c) = (if y = x then [(y # b, a, c)] else [])"
  by (simp add: Ch_def m.simps)

lemma m_Ch_Nil: "m (Ch x) (b, [], c) = []"
  by (simp add: Ch_def m.simps)

lemma Seqs_Cons: "rs \<noteq> [] \<Longrightarrow> Seqs (r # rs) = Seq r (Seqs rs)"
  by (cases rs) simp_all

lemma m_Lit:
  "m (Lit p) (b, a, c) = (if take (length p) a = p then [(rev p @ b, drop (length p) a, c)] else [])"
proof (induction p arbitrary: b a)
  case Nil
  show ?case by (simp add: Lit_def m.simps)
next
  case (Cons x p)
  show ?case
  proof (cases p)
    case Nil
    then show ?thesis
      by (cases a) (simp_all add: Lit_def m_Ch_Cons m_Ch_Nil)
  next
    case (Cons y q)
    then have "Lit (x # p) = Seq (Ch x) (Lit p)"
      by (simp add: Lit_def)
    then show ?thesis
      using Cons.IH
      by (cases a) (simp_all add: m.simps(3) m_Ch_Cons m_Ch_Nil)
  qed
qed

lemma m_Alts_member:
  "r \<in> set rs \<Longrightarrow> m r st \<noteq> [] \<Longrightarrow> m (Alts rs) st \<noteq> []"
proof (induction rs rule: Alts.induct)
  case 1
  then show ?case by simp
next
  case (2 r')
  then show ?case by simp
next
  case (3 r' v va)
  then show ?case by (auto simp: m.simps(4))
qed

lemma m_Alts_none:
  "\<forall>r \<in> set rs. m r st = [] \<Longrightarrow> m (Alts rs) st = []"
proof (induction rs rule: Alts.induct)
  case 1
  then show ?case by (simp add: m.simps)
next
  case (2 r')
  then show ?case by simp
next
  case (3 r' v va)
  then show ?case by (simp add: m.simps(4))
qed

lemma search_Bol: "b \<noteq> [] \<Longrightarrow> search (Seq Bol r) b a = None"
  by (induction a arbitrary: b) (simp_all add: m.simps)

lemma test_Bol: "test (Seq Bol r) s \<longleftrightarrow> m r ([], s, []) \<noteq> []"
  by (cases s) (auto simp: test_def m.simps search_Bol split: list.splits)

section \<open>Void elements\<close>

definition void_names :: "string list" where
  \<comment> \<open>the names the lookahead of \<^verbatim>\<open>openTags\<close> excludes, but for \<^verbatim>\<open>jsp:include\<close>,
      \<^verbatim>\<open>jsp:forward\<close> and \<^verbatim>\<open>jsp:useBean\<close>, which \<^verbatim>\<open>jspOpenTags\<close> takes\<close>
  "void_names = [''br'', ''hr'', ''img'', ''input'', ''link'', ''meta'', ''area'', ''base'',
     ''col'', ''embed'', ''param'', ''source'', ''track'', ''wbr'',
     ''jsp:param'', ''jsp:setProperty'', ''jsp:getProperty'',
     ''c:out'', ''c:set'', ''c:remove'', ''c:param'', ''c:redirect'',
     ''fmt:message'', ''fmt:formatNumber'', ''fmt:formatDate'', ''fmt:setLocale'',
     ''fmt:setBundle'', ''fmt:requestEncoding'', ''fmt:setTimeZone'',
     ''sql:param'', ''sql:dateParam'', ''sql:setDataSource'']"

lemma void_excluded_all:
  "list_all (\<lambda>v. \<forall>b rest c. m excluded_names (b, v @ rest, c) \<noteq> []) void_names"
  unfolding void_names_def excluded_names_def
  by (simp add: m.simps(3,4) m_Lit)

lemma void_not_jsp_all:
  "list_all (\<lambda>v. \<forall>b rest c. m jspTagNames (b, v @ rest, c) = []) void_names"
  unfolding void_names_def jspTagNames_def
  by (simp add: m.simps(3,4) m_Lit)

lemma void_not_slash_all:
  "list_all (\<lambda>v. \<forall>rest. take 1 (v @ rest) \<noteq> ''/'') void_names"
  unfolding void_names_def by simp

lemma void_excluded:
  "v \<in> set void_names \<Longrightarrow> m excluded_names (b, v @ rest, c) \<noteq> []"
  using void_excluded_all by (simp add: list_all_iff)

lemma void_not_jsp:
  "v \<in> set void_names \<Longrightarrow> m jspTagNames (b, v @ rest, c) = []"
  using void_not_jsp_all by (simp add: list_all_iff)

lemma void_not_slash:
  "v \<in> set void_names \<Longrightarrow> take 1 (v @ rest) \<noteq> ''/''"
  using void_not_slash_all by (simp add: list_all_iff)

lemma void_line_not_close:
  assumes "v \<in> set void_names"
  shows "\<not> test closeTags (CHR ''<'' # v @ rest)" and "\<not> test jspCloseTags (CHR ''<'' # v @ rest)"
proof -
  have n: "take (length ''</'') (CHR ''<'' # v @ rest) \<noteq> ''</''"
    using void_not_slash [OF assms, of rest] by simp
  have l: "m (Lit ''</'') ([], CHR ''<'' # v @ rest, []) = []"
    using n by (simp only: m_Lit if_False)
  have e1: "closeTags = Seq Bol (Seq (Lit ''</'')
          (Seqs [Chr is_tag_start, Star (NotCh CHR ''>''), Ch CHR ''>'', Eol]))"
    by (simp add: closeTags_def)
  show "\<not> test closeTags (CHR ''<'' # v @ rest)"
    unfolding e1 test_Bol m_Seq_Nil [OF l] by simp
  have e2: "jspCloseTags = Seq Bol (Seq (Lit ''</'') (Seqs [Grp 1 jspTagNames, Ch CHR ''>'']))"
    by (simp add: jspCloseTags_def)
  show "\<not> test jspCloseTags (CHR ''<'' # v @ rest)"
    unfolding e2 test_Bol m_Seq_Nil [OF l] by simp
qed

lemma void_line_not_open:
  assumes "v \<in> set void_names"
  shows "\<not> test openTags (CHR ''<'' # v @ rest)" and "\<not> test jspOpenTags (CHR ''<'' # v @ rest)"
proof -
  let ?st = "([CHR ''<''], v @ rest, [])"
  have c: "m (Ch CHR ''<'') ([], CHR ''<'' # v @ rest, []) = [?st]"
    by (simp add: m_Ch_Cons)
  have "m (NLook excluded_names) ?st = []"
    using void_excluded [OF assms, of "[CHR ''<'']" rest "[]"] by (simp add: m.simps(7))
  then have o: "m (Seq (NLook excluded_names)
      (Seqs [Chr is_tag_start, Star (NotCh CHR ''>''), NotCh CHR ''/'', Ch CHR ''>'', Eol])) ?st = []"
    by (rule m_Seq_Nil)
  have e3: "openTags = Seq Bol (Seq (Ch CHR ''<'') (Seq (NLook excluded_names)
      (Seqs [Chr is_tag_start, Star (NotCh CHR ''>''), NotCh CHR ''/'', Ch CHR ''>'', Eol])))"
    by (simp add: openTags_def)
  show "\<not> test openTags (CHR ''<'' # v @ rest)"
    unfolding e3 test_Bol m_Seq_single [OF c] o by simp
  have "m (Grp 1 jspTagNames) ?st = []"
    using void_not_jsp [OF assms, of "[CHR ''<'']" rest "[]"] by (simp add: m.simps(11))
  then have j: "m (Seq (Grp 1 jspTagNames)
      (Seqs [Star (NotCh CHR ''>''), NotCh CHR ''/'', Ch CHR ''>''])) ?st = []"
    by (rule m_Seq_Nil)
  have e4: "jspOpenTags = Seq Bol (Seq (Ch CHR ''<'') (Seq (Grp 1 jspTagNames)
      (Seqs [Star (NotCh CHR ''>''), NotCh CHR ''/'', Ch CHR ''>''])))"
    by (simp add: jspOpenTags_def)
  show "\<not> test jspOpenTags (CHR ''<'' # v @ rest)"
    unfolding e4 test_Bol m_Seq_single [OF c] j by simp
qed

text \<open>
  C9, as the claim states it. A line that holds only the open tag of \<^verbatim>\<open>jsp:include\<close>,
  one of the single-tag elements the lookahead of \<^verbatim>\<open>openTags\<close> lists, raises the
  level: the line after it is indented one unit more.
\<close>

theorem jsp_include_raises_level:
  "html_step ''    '' (0, []) ''<jsp:include page=\"a.jsp\">''
     = (1, [''<jsp:include page=\"a.jsp\">'']) \<and>
   formatHtmlStructure ''<jsp:include page=\"a.jsp\">\<newline><br>'' default_options
     = ''<jsp:include page=\"a.jsp\">\<newline>    <br>''"
proof -
  have "html_step ''    '' (0, []) ''<jsp:include page=\"a.jsp\">''
     = (1, [''<jsp:include page=\"a.jsp\">''])"
    by code_simp
  moreover have "formatHtmlStructure ''<jsp:include page=\"a.jsp\">\<newline><br>'' default_options
     = ''<jsp:include page=\"a.jsp\">\<newline>    <br>''"
    by code_simp
  ultimately show ?thesis by simp
qed

text \<open>
  C9, amended. A line whose trimmed text begins with \<^verbatim>\<open><\<close> and one of the names of
  \<open>void_names\<close> (the void elements of HTML and the single-tag JSP and JSTL elements of
  the lookahead of \<^verbatim>\<open>openTags\<close>, without \<^verbatim>\<open>jsp:include\<close>, \<^verbatim>\<open>jsp:forward\<close> and
  \<^verbatim>\<open>jsp:useBean\<close>) is emitted at the level it finds and leaves the level as it is.
\<close>

theorem void_tag_keeps_level:
  assumes "v \<in> set void_names" and "trim rawLine = CHR ''<'' # v @ rest"
  shows "html_step indent (level, result) rawLine
           = (level, result @ [js_repeat indent level @ trim rawLine])"
proof -
  have "close_level level (trim rawLine) = level"
    unfolding assms(2) close_level_def using void_line_not_close [OF assms(1)] by simp
  moreover have "open_level level (trim rawLine) = level"
    unfolding assms(2) open_level_def using void_line_not_open [OF assms(1)] by simp
  ultimately show ?thesis
    using assms(2) by (simp add: html_step_def Let_def)
qed

theorem void_tag_keeps_level_witness:
  "''br'' \<in> set void_names \<and> trim ''  <br>'' = CHR ''<'' # ''br'' @ ''>'' \<and>
   html_step ''    '' (1, [''<div>'']) ''  <br>'' = (1, [''<div>'', ''    <br>''])"
proof -
  have a: "''br'' \<in> set void_names"
    by (simp add: void_names_def)
  have b: "trim ''  <br>'' = CHR ''<'' # ''br'' @ ''>''"
    by code_simp
  have c: "js_repeat ''    '' 1 @ trim ''  <br>'' = ''    <br>''"
    by code_simp
  from void_tag_keeps_level [OF a b, of "''    ''" 1 "[''<div>'']"] a b c show ?thesis
    by simp
qed

section \<open>Repetitions of one character class\<close>

fun star_states :: "(char \<Rightarrow> bool) \<Rightarrow> string \<Rightarrow> string \<Rightarrow> (nat \<times> capture) list \<Rightarrow> mstate list" where
  "star_states P b [] c = [(b, [], c)]"
| "star_states P b (x # a) c =
     (if P x then star_states P (x # b) a c @ [(b, x # a, c)] else [(b, x # a, c)])"

lemma m_Star_Chr: "m (Star (Chr P)) (b, a, c) = star_states P b a c"
proof (induction a arbitrary: b)
  case Nil
  show ?case by (simp add: m.simps(5) [of _ b "[]" c] m.simps(2))
next
  case (Cons x a)
  show ?case
    by (simp add: m.simps(5) [of _ b "x # a" c] m.simps(2) Cons.IH)
qed

lemma star_states_hd:
  "\<exists>rest. star_states P b a c = (rev (takeWhile P a) @ b, dropWhile P a, c) # rest"
proof (induction a arbitrary: b)
  case Nil
  show ?case by simp
next
  case (Cons x a)
  show ?case
  proof (cases "P x")
    case True
    from Cons.IH [of "x # b"] obtain rest where
      "star_states P (x # b) a c = (rev (takeWhile P a) @ x # b, dropWhile P a, c) # rest"
      by blast
    with True show ?thesis by simp
  next
    case False
    then show ?thesis by simp
  qed
qed

lemma star_states_Eol:
  "concat (map (m Eol) (star_states P b a c)) = (if list_all P a then [(rev a @ b, [], c)] else [])"
proof (induction a arbitrary: b)
  case Nil
  show ?case by (simp add: m.simps(10))
next
  case (Cons x a)
  show ?case
  proof (cases "P x")
    case True
    have e: "concat (map (m Eol) (star_states P b (x # a) c))
               = concat (map (m Eol) (star_states P (x # b) a c))"
      using True by (simp add: m.simps(10) del: concat_eq_Nil_conv)
    show ?thesis
      unfolding e Cons.IH using True by simp
  next
    case False
    then show ?thesis by (simp add: m.simps(10))
  qed
qed

lemma m_Times_Ch:
  "m (Times n (Ch x)) (b, a, c)
     = (if n \<le> length (takeWhile (\<lambda>y. y = x) a) then [(rev (take n a) @ b, drop n a, c)] else [])"
proof (induction n arbitrary: b a)
  case 0
  show ?case by (simp add: m.simps(1))
next
  case (Suc n)
  show ?case
    by (cases a) (simp_all add: m.simps(3) m_Ch_Cons m_Ch_Nil Suc.IH)
qed

section \<open>The newline at the end\<close>

definition strip_end :: "string \<Rightarrow> string" where
  \<comment> \<open>the text without the white space at its end\<close>
  "strip_end t = rev (dropWhile is_space (rev t))"

lemma strip_end_Cons:
  "strip_end (x # a) = (if list_all is_space (x # a) then [] else x # strip_end a)"
proof (cases "list_all is_space a")
  case True
  then have "dropWhile is_space (rev a) = []"
    by (simp add: list_all_iff)
  then show ?thesis
    using True by (simp add: strip_end_def dropWhile_append)
next
  case False
  then have "dropWhile is_space (rev a) \<noteq> []"
    by (auto simp: list_all_iff dropWhile_eq_Nil_conv)
  then show ?thesis
    using False by (simp add: strip_end_def dropWhile_append)
qed

lemma m_ws_plus:
  "m ws_plus (b, a, c)
     = (case a of [] \<Rightarrow> [] | x # a' \<Rightarrow> if is_space x then star_states is_space (x # b) a' c else [])"
  by (cases a) (simp_all add: ws_plus_def Plus_def m.simps(3) m.simps(2) m_Star_Chr)

lemma m_ws_end:
  "m (Seq ws_plus Eol) (b, a, c)
     = (if a \<noteq> [] \<and> list_all is_space a then [(rev a @ b, [], c)] else [])"
proof (cases a)
  case Nil
  then show ?thesis
    by (simp add: m.simps(3) m_ws_plus)
next
  case (Cons x a')
  show ?thesis
  proof (cases "is_space x")
    case True
    have "m (Seq ws_plus Eol) (b, a, c)
            = concat (map (m Eol) (star_states is_space (x # b) a' c))"
      using Cons True by (simp add: m.simps(3) m_ws_plus)
    also have "\<dots> = (if list_all is_space a' then [(rev a' @ x # b, [], c)] else [])"
      by (rule star_states_Eol)
    finally show ?thesis using Cons True by simp
  next
    case False
    then show ?thesis using Cons by (simp add: m.simps(3) m_ws_plus)
  qed
qed

lemma search_ws_end:
  "search (Seq ws_plus Eol) b a
     = (if strip_end a = a then None else Some (rev (strip_end a) @ b, (rev a @ b, [], [])))"
proof (induction a arbitrary: b)
  case Nil
  show ?case by (simp add: m_ws_end strip_end_def)
next
  case (Cons x a)
  show ?case
  proof (cases "list_all is_space (x # a)")
    case True
    then show ?thesis
      by (simp add: m_ws_end strip_end_Cons)
  next
    case False
    then show ?thesis
      using Cons.IH [of "x # b"] by (simp add: m_ws_end strip_end_Cons)
  qed
qed

lemma end_newline_eq:
  "end_newline t = (if strip_end t = t then t else strip_end t @ [CHR 0x0A])"
  by (simp add: end_newline_def replace_first_def search_ws_end)

section \<open>The cap on blank lines\<close>

fun squeeze :: "nat \<Rightarrow> nat \<Rightarrow> string \<Rightarrow> string" where
  \<comment> \<open>\<open>squeeze lim k t\<close> keeps at most \<open>lim\<close> newlines of every run of newlines of \<open>t\<close>;
      \<open>k\<close> newlines of the run at the start of \<open>t\<close> are already out\<close>
  "squeeze lim k [] = []"
| "squeeze lim k (x # t) =
     (if x = CHR 0x0A
      then (if k < lim then CHR 0x0A # squeeze lim (Suc k) t else squeeze lim k t)
      else x # squeeze lim 0 t)"

abbreviation run_length :: "string \<Rightarrow> nat" where
  "run_length a \<equiv> length (takeWhile (\<lambda>y. y = CHR 0x0A) a)"

lemma squeeze_short_run:
  "k + run_length a \<le> lim \<Longrightarrow> squeeze lim k a = squeeze lim 0 a"
proof (induction a arbitrary: k)
  case Nil
  show ?case by simp
next
  case (Cons x a)
  show ?case
  proof (cases "x = CHR 0x0A")
    case True
    with Cons.prems have "Suc k + run_length a \<le> lim" "Suc 0 + run_length a \<le> lim"
      by simp_all
    then have "squeeze lim (Suc k) a = squeeze lim 0 a" "squeeze lim (Suc 0) a = squeeze lim 0 a"
      using Cons.IH by blast+
    with True Cons.prems show ?thesis by simp
  next
    case False
    then show ?thesis by simp
  qed
qed

lemma squeeze_long_run:
  "lim \<le> k \<Longrightarrow> squeeze lim k a = squeeze lim k (dropWhile (\<lambda>y. y = CHR 0x0A) a)"
  by (induction a) simp_all

lemma squeeze_fresh:
  "a = [] \<or> hd a \<noteq> CHR 0x0A \<Longrightarrow> squeeze lim k a = squeeze lim 0 a"
  by (cases a) auto

lemma squeeze_at_limit:
  assumes "lim \<le> k"
  shows "squeeze lim k a = squeeze lim 0 (dropWhile (\<lambda>y. y = CHR 0x0A) a)"
proof -
  let ?d = "dropWhile (\<lambda>y. y = CHR 0x0A) a"
  have "?d = [] \<or> hd ?d \<noteq> CHR 0x0A"
    using hd_dropWhile [of "\<lambda>y. y = CHR 0x0A" a] by blast
  then have "squeeze lim k ?d = squeeze lim 0 ?d"
    by (rule squeeze_fresh)
  with squeeze_long_run [OF assms, of a] show ?thesis by simp
qed

lemma squeeze_run:
  "lim \<le> k + run_length a \<Longrightarrow> k \<le> lim \<Longrightarrow>
   squeeze lim k a = replicate (lim - k) CHR 0x0A @ squeeze lim 0 (dropWhile (\<lambda>y. y = CHR 0x0A) a)"
proof (induction a arbitrary: k)
  case Nil
  then show ?case by simp
next
  case (Cons x a)
  show ?case
  proof (cases "k < lim")
    case True
    with Cons.prems(1) have x: "x = CHR 0x0A"
      by (cases "x = CHR 0x0A") simp_all
    with Cons.prems(1) have "lim \<le> Suc k + run_length a"
      by simp
    from Cons.IH [OF this] True have
      "squeeze lim (Suc k) a
         = replicate (lim - Suc k) CHR 0x0A @ squeeze lim 0 (dropWhile (\<lambda>y. y = CHR 0x0A) a)"
      by simp
    moreover have "replicate (lim - k) CHR 0x0A = CHR 0x0A # replicate (lim - Suc k) CHR 0x0A"
    proof -
      from True have "lim - k = Suc (lim - Suc k)" by simp
      then show ?thesis by (simp only: replicate_Suc)
    qed
    ultimately show ?thesis
      using True x by simp
  next
    case False
    with Cons.prems(2) have "k = lim" by simp
    then show ?thesis
      using squeeze_at_limit [of lim k "x # a"] by simp
  qed
qed

lemma m_Star_Ch: "m (Star (Ch x)) (b, a, c) = star_states (\<lambda>y. y = x) b a c"
  by (simp add: Ch_def m_Star_Chr)

lemma m_AtLeast_Ch:
  "m (AtLeast n (Ch x)) (b, a, c)
     = (if n \<le> length (takeWhile (\<lambda>y. y = x) a)
        then star_states (\<lambda>y. y = x) (rev (take n a) @ b) (drop n a) c else [])"
  by (simp add: AtLeast_def m.simps(3) m_Times_Ch m_Star_Ch)

lemma dropWhile_drop:
  "n \<le> length (takeWhile P a) \<Longrightarrow> dropWhile P (drop n a) = dropWhile P a"
proof (induction a arbitrary: n)
  case Nil
  show ?case by simp
next
  case (Cons x a)
  then show ?case by (cases n) (auto split: if_splits)
qed

lemma m_AtLeast_hd:
  assumes "n \<le> length (takeWhile (\<lambda>y. y = x) a)"
  shows "\<exists>b' rest. m (AtLeast n (Ch x)) (b, a, c) = (b', dropWhile (\<lambda>y. y = x) a, c) # rest"
proof -
  from star_states_hd [of "\<lambda>y. y = x" "rev (take n a) @ b" "drop n a" c]
  obtain rest where "star_states (\<lambda>y. y = x) (rev (take n a) @ b) (drop n a) c
     = (rev (takeWhile (\<lambda>y. y = x) (drop n a)) @ rev (take n a) @ b,
        dropWhile (\<lambda>y. y = x) (drop n a), c) # rest"
    by blast
  with assms show ?thesis
    by (simp add: m_AtLeast_Ch dropWhile_drop)
qed

lemma replace_newline_runs:
  assumes "0 < lim"
  shows "fst (replace_fn (AtLeast (Suc lim) (Ch CHR 0x0A))
                (\<lambda>_ u. (replicate lim CHR 0x0A, u)) b a ()) = squeeze lim 0 a"
proof (induction a arbitrary: b rule: length_induct)
  case (1 a)
  let ?r = "AtLeast (Suc lim) (Ch CHR 0x0A)"
  let ?f = "\<lambda>(_::string) (u::unit). (replicate lim CHR 0x0A, u)"
  show ?case
  proof (cases a)
    case Nil
    have "m ?r (b, [], []) = []"
      by (simp add: m_AtLeast_Ch)
    then show ?thesis
      using Nil by (subst replace_fn.simps) simp
  next
    case (Cons x a')
    show ?thesis
    proof (cases "Suc lim \<le> run_length a")
      case True
      from m_AtLeast_hd [OF True, where b = b and c = "[]"] obtain b' rest where
        h: "m ?r (b, a, []) = (b', dropWhile (\<lambda>y. y = CHR 0x0A) a, []) # rest"
        by blast
      let ?d = "dropWhile (\<lambda>y. y = CHR 0x0A) a"
      from True Cons have x: "x = CHR 0x0A"
        by (cases "x = CHR 0x0A") simp_all
      have shorter: "length ?d < length a"
        using Cons x by (simp add: le_imp_less_Suc length_dropWhile_le)
      from 1 shorter have ih: "fst (replace_fn ?r ?f b' ?d ()) = squeeze lim 0 ?d"
        by blast
      have "fst (replace_fn ?r ?f b a ()) = replicate lim CHR 0x0A @ fst (replace_fn ?r ?f b' ?d ())"
        using h shorter by (subst replace_fn.simps) (simp add: split_beta)
      also have "\<dots> = replicate lim CHR 0x0A @ squeeze lim 0 ?d"
        by (simp only: ih)
      also have "\<dots> = squeeze lim 0 a"
        using squeeze_run [where lim = lim and a = a and k = 0] True by simp
      finally show ?thesis .
    next
      case False
      then have none: "m ?r (b, a, []) = []"
        by (simp add: m_AtLeast_Ch)
      from 1 Cons have ih: "fst (replace_fn ?r ?f (x # b) a' ()) = squeeze lim 0 a'"
        by simp
      have "fst (replace_fn ?r ?f b a ()) = x # fst (replace_fn ?r ?f (x # b) a' ())"
        using none Cons by (subst replace_fn.simps) (simp add: split_beta)
      also have "\<dots> = x # squeeze lim 0 a'"
        by (simp only: ih)
      also have "\<dots> = squeeze lim 0 a"
      proof (cases "x = CHR 0x0A")
        case True
        with False Cons have "Suc 0 + run_length a' \<le> lim" by simp
        from squeeze_short_run [OF this] True Cons assms show ?thesis by simp
      next
        case False
        with Cons show ?thesis by simp
      qed
      finally show ?thesis .
    qed
  qed
qed

lemma cap_newlines_eq:
  "cap_newlines opts t
     = (if preserveNewlines opts then squeeze (maxPreserveNewlines opts + 1) 0 t else t)"
  using replace_newline_runs [of "maxPreserveNewlines opts + 1" "[]" t]
  by (simp add: cap_newlines_def replace_all_def)

section \<open>Texts without protected regions\<close>

definition has :: "string \<Rightarrow> string \<Rightarrow> bool" where
  \<comment> \<open>\<open>p\<close> stands somewhere in \<open>t\<close>\<close>
  "has p t \<longleftrightarrow> (\<exists>u v. t = u @ p @ v)"

definition region_free :: "string \<Rightarrow> bool" where
  \<comment> \<open>no opener of a protected region: no \<^verbatim>\<open><%\<close>, \<^verbatim>\<open>${\<close>, \<^verbatim>\<open>#{\<close>, and in any case of the
      letters no \<^verbatim>\<open><script\<close> and no \<^verbatim>\<open><style\<close>\<close>
  "region_free t \<longleftrightarrow>
     \<not> has ''<%'' t \<and> \<not> has ''${'' t \<and> \<not> has ''#{'' t \<and>
     \<not> has ''<SCRIPT'' (map ascii_upper t) \<and> \<not> has ''<STYLE'' (map ascii_upper t)"

lemma has_at: "take (length p) (drop k t) = p \<Longrightarrow> has p t"
proof -
  assume a: "take (length p) (drop k t) = p"
  have "t = take k t @ take (length p) (drop k t) @ drop (length p) (drop k t)"
    by (metis append_take_drop_id)
  with a have "t = take k t @ p @ drop (length p) (drop k t)"
    by simp
  then show ?thesis unfolding has_def by blast
qed

lemma has_prefix_at:
  assumes "take (length (p @ q)) (drop k t) = p @ q"
  shows "has p t"
proof -
  have "take (length p) (drop k t) = take (length p) (take (length (p @ q)) (drop k t))"
    by (simp add: min_def)
  also have "\<dots> = p" using assms by simp
  finally show ?thesis by (rule has_at)
qed

lemma replace_fn_no_match:
  "(\<And>k b'. m r (b', drop k a, []) = []) \<Longrightarrow> replace_fn r f b a s = (a, s)"
proof (induction a arbitrary: b)
  case Nil
  from Nil [where k = 0 and b' = b] show ?case
    by (subst replace_fn.simps) simp
next
  case (Cons x a)
  have "\<And>k b'. m r (b', drop k a, []) = []"
    using Cons.prems [where k = "Suc _"] by simp
  then have "replace_fn r f (x # b) a s = (a, s)"
    by (rule Cons.IH)
  moreover have "m r (b, x # a, []) = []"
    using Cons.prems [where k = 0 and b' = b] by simp
  ultimately show ?case
    by (subst replace_fn.simps) simp
qed

lemma no_Lit_start:
  assumes "\<not> has p t"
  shows "m (Seq (Lit (p @ q)) r) (b, drop k t, c) = []"
proof -
  have "take (length (p @ q)) (drop k t) \<noteq> p @ q"
    using assms has_prefix_at by blast
  then have "m (Lit (p @ q)) (b, drop k t, c) = []"
    by (simp only: m_Lit if_False)
  then show ?thesis by (rule m_Seq_Nil)
qed

lemma m_Chrs:
  "m (Seqs (map Chr ps)) (b, a, c)
     = (if length ps \<le> length a \<and> list_all2 (\<lambda>P x. P x) ps (take (length ps) a)
        then [(rev (take (length ps) a) @ b, drop (length ps) a, c)] else [])"
proof (induction ps arbitrary: b a)
  case Nil
  show ?case by (simp add: m.simps(1))
next
  case (Cons P ps)
  show ?case
  proof (cases ps)
    case Nil
    then show ?thesis
      by (cases a) (simp_all add: m.simps(2))
  next
    case (Cons P' ps')
    then have "Seqs (map Chr (P # ps)) = Seq (Chr P) (Seqs (map Chr ps))"
      by simp
    then show ?thesis
      using Cons.IH
      by (cases a) (simp_all add: m.simps(3) m.simps(2))
  qed
qed

lemma m_LitI:
  "m (LitI p) (b, a, c)
     = (if length p \<le> length a \<and> map ascii_upper (take (length p) a) = map ascii_upper p
        then [(rev (take (length p) a) @ b, drop (length p) a, c)] else [])"
proof -
  have "list_all2 (\<lambda>P x. P x) (map (\<lambda>x c. ascii_upper c = ascii_upper x) p) w
          \<longleftrightarrow> length w = length p \<and> map ascii_upper w = map ascii_upper p" for w
  proof (induction p arbitrary: w)
    case Nil
    show ?case by simp
  next
    case (Cons x p)
    then show ?case by (cases w) auto
  qed
  then have e: "length p \<le> length a \<and>
      list_all2 (\<lambda>P x. P x) (map (\<lambda>x c. ascii_upper c = ascii_upper x) p) (take (length p) a)
      \<longleftrightarrow> length p \<le> length a \<and> map ascii_upper (take (length p) a) = map ascii_upper p"
    by auto
  have "LitI p = Seqs (map Chr (map (\<lambda>x c. ascii_upper c = ascii_upper x) p))"
    by (simp add: LitI_def comp_def)
  then show ?thesis
    using m_Chrs [of "map (\<lambda>x c. ascii_upper c = ascii_upper x) p" b a c] e by simp
qed

lemma no_LitI_start:
  assumes "\<not> has (map ascii_upper p) (map ascii_upper t)"
  shows "m (Seq (LitI p) r) (b, drop k t, c) = []"
proof -
  have "map ascii_upper (take (length p) (drop k t)) \<noteq> map ascii_upper p"
  proof
    assume "map ascii_upper (take (length p) (drop k t)) = map ascii_upper p"
    then have "take (length (map ascii_upper p)) (drop k (map ascii_upper t)) = map ascii_upper p"
      by (simp add: take_map drop_map)
    then have "has (map ascii_upper p) (map ascii_upper t)"
      by (rule has_at)
    with assms show False by simp
  qed
  then have "m (LitI p) (b, drop k t, c) = []"
    by (simp only: m_LitI) simp
  then show ?thesis by (rule m_Seq_Nil)
qed

lemma upper_script: "map ascii_upper ''<script'' = ''<SCRIPT''"
  by code_simp

lemma upper_style: "map ascii_upper ''<style'' = ''<STYLE''"
  by code_simp

lemma region_free_no_match:
  assumes "region_free t"
  shows "m comment_re (b, drop k t, []) = []"
    and "m decl_re (b, drop k t, []) = []"
    and "m expr_re (b, drop k t, []) = []"
    and "m scriptlet_re (b, drop k t, []) = []"
    and "m dir_re (b, drop k t, []) = []"
    and "m el_re (b, drop k t, []) = []"
    and "m del_re (b, drop k t, []) = []"
    and "m script_re (b, drop k t, []) = []"
    and "m style_re (b, drop k t, []) = []"
proof -
  from assms have p: "\<not> has ''<%'' t" and e: "\<not> has ''${'' t" and d: "\<not> has ''#{'' t"
    by (simp_all add: region_free_def)
  have s: "\<not> has (map ascii_upper ''<script'') (map ascii_upper t)"
    unfolding upper_script using assms by (simp add: region_free_def)
  have y: "\<not> has (map ascii_upper ''<style'') (map ascii_upper t)"
    unfolding upper_style using assms by (simp add: region_free_def)
  show "m comment_re (b, drop k t, []) = []"
    using no_Lit_start [OF p, of "''--''"] by (simp add: comment_re_def)
  show "m decl_re (b, drop k t, []) = []"
    using no_Lit_start [OF p, of "''!''"] by (simp add: decl_re_def)
  show "m expr_re (b, drop k t, []) = []"
    using no_Lit_start [OF p, of "''=''"] by (simp add: expr_re_def)
  show "m scriptlet_re (b, drop k t, []) = []"
    using no_Lit_start [OF p, of "[]"] by (simp add: scriptlet_re_def)
  show "m dir_re (b, drop k t, []) = []"
    using no_Lit_start [OF p, of "''@''"] by (simp add: dir_re_def)
  show "m el_re (b, drop k t, []) = []"
    using no_Lit_start [OF e, of "[]"] by (simp add: el_re_def)
  show "m del_re (b, drop k t, []) = []"
    using no_Lit_start [OF d, of "[]"] by (simp add: del_re_def)
  show "m script_re (b, drop k t, []) = []"
    using no_LitI_start [OF s] by (simp add: script_re_def)
  show "m style_re (b, drop k t, []) = []"
    using no_LitI_start [OF y] by (simp add: style_re_def)
qed

lemma extract_regions_region_free:
  assumes "region_free t"
  shows "extract_regions t opts = (t, \<lparr>counter = 0, preserveMap = [], thrown = None\<rparr>)"
  unfolding extract_regions_def Let_def
  by (simp add: replace_fn_no_match region_free_no_match [OF assms])

lemma restore_Nil: "restore [] text = text"
  by (simp add: restore_def)

lemma formatJsp_region_free:
  "region_free t \<Longrightarrow>
   formatJsp t opts = Inr (end_newline (cap_newlines opts (formatHtmlStructure t opts)))"
  by (simp add: formatJsp_def extract_regions_region_free restore_Nil)

section \<open>Lines\<close>

lemma split_on_not_Nil: "split_on d t \<noteq> []"
  by (induction t) (auto split: list.splits)

lemma split_on_no_delim: "l \<in> set (split_on d t) \<Longrightarrow> d \<notin> set l"
proof (induction t arbitrary: l)
  case Nil
  then show ?case by simp
next
  case (Cons x t)
  show ?case
  proof (cases "x = d")
    case True
    with Cons show ?thesis by auto
  next
    case False
    obtain h r where s: "split_on d t = h # r"
      using split_on_not_Nil [of d t] by (cases "split_on d t") auto
    with Cons.prems False have "l = x # h \<or> l \<in> set r" by simp
    then show ?thesis
      using Cons.IH [of h] Cons.IH [of l] s False by auto
  qed
qed

lemma join_split: "join_with [d] (split_on d t) = t"
proof (induction t)
  case Nil
  show ?case by simp
next
  case (Cons x t)
  obtain h r where s: "split_on d t = h # r"
    using split_on_not_Nil [of d t] by (cases "split_on d t") auto
  show ?case
  proof (cases "x = d")
    case True
    with Cons s show ?thesis by simp
  next
    case False
    with Cons s show ?thesis by (cases r) simp_all
  qed
qed

lemma split_line: "d \<notin> set l \<Longrightarrow> split_on d l = [l]"
  by (induction l) auto

lemma split_line_more:
  "d \<notin> set l \<Longrightarrow> split_on d (l @ d # t) = l # split_on d t"
  by (induction l) auto

lemma split_join:
  "ls \<noteq> [] \<Longrightarrow> \<forall>l \<in> set ls. d \<notin> set l \<Longrightarrow> split_on d (join_with [d] ls) = ls"
proof (induction ls)
  case Nil
  then show ?case by simp
next
  case (Cons l ls)
  show ?case
  proof (cases ls)
    case Nil
    with Cons.prems show ?thesis by (simp add: split_line)
  next
    case (Cons l' ls')
    with Cons.IH Cons.prems have "split_on d (join_with [d] ls) = ls" by simp
    with Cons Cons.prems show ?thesis by (simp add: split_line_more)
  qed
qed

section \<open>Trimmed lines\<close>

definition tidy :: "string \<Rightarrow> bool" where
  \<comment> \<open>a text that is not empty and has no white space at its ends\<close>
  "tidy w \<longleftrightarrow> w \<noteq> [] \<and> \<not> is_space (hd w) \<and> \<not> is_space (last w)"

lemma strip_end_tidy:
  assumes "d \<noteq> []" and "\<not> is_space (hd d)"
  shows "tidy (strip_end d)"
proof -
  obtain x d' where d: "d = x # d'" using assms(1) by (cases d) auto
  with assms(2) have x: "\<not> is_space x" by simp
  then have "strip_end d = x # strip_end d'"
    using d by (simp add: strip_end_Cons)
  moreover have "strip_end d \<noteq> [] \<Longrightarrow> \<not> is_space (last (strip_end d))"
    using hd_dropWhile [of is_space "rev d"]
    by (simp add: strip_end_def last_rev)
  ultimately show ?thesis using x by (simp add: tidy_def)
qed

lemma trim_strip_end: "trim s = strip_end (dropWhile is_space s)"
  by (simp add: trim_def strip_end_def)

lemma trim_tidy: "trim l \<noteq> [] \<Longrightarrow> tidy (trim l)"
proof -
  assume n: "trim l \<noteq> []"
  let ?d = "dropWhile is_space l"
  have "?d \<noteq> []"
  proof
    assume e: "?d = []"
    have "trim l = []"
      unfolding trim_strip_end e by (simp add: strip_end_def)
    with n show False by simp
  qed
  moreover from this have "\<not> is_space (hd ?d)"
    by (rule hd_dropWhile)
  ultimately show ?thesis
    unfolding trim_strip_end by (rule strip_end_tidy)
qed

lemma trim_indented:
  assumes "tidy w" and "list_all is_space s"
  shows "trim (s @ w) = w"
proof -
  obtain x w' where w: "w = x # w'" and x: "\<not> is_space x"
    using assms(1) by (cases w) (auto simp: tidy_def)
  from assms(2) have "dropWhile is_space (s @ w) = w"
    using w x by (simp add: dropWhile_append list_all_iff)
  moreover have "strip_end w = w"
  proof -
    from assms(1) have "rev w \<noteq> []" "\<not> is_space (hd (rev w))"
      by (simp_all add: tidy_def hd_rev)
    then have "dropWhile is_space (rev w) = rev w"
      by (cases "rev w") auto
    then show ?thesis by (simp add: strip_end_def)
  qed
  ultimately show ?thesis by (simp add: trim_strip_end)
qed

lemma trim_Nil: "trim [] = []"
  by (simp add: trim_def)

section \<open>The lines of formatHtmlStructure\<close>

fun out_lines :: "string \<Rightarrow> int \<Rightarrow> string list \<Rightarrow> string list" where
  \<comment> \<open>the lines the loop pushes, from the level \<open>k\<close>\<close>
  "out_lines ind k [] = []"
| "out_lines ind k (l # ls) =
     (if trim l = [] then [] # out_lines ind k ls
      else (js_repeat ind (close_level k (trim l)) @ trim l)
             # out_lines ind (open_level (close_level k (trim l)) (trim l)) ls)"

lemma foldl_html_step:
  "snd (foldl (html_step ind) (k, res) ls) = res @ out_lines ind k ls"
  by (induction ls arbitrary: k res) (simp_all add: html_step_def Let_def)

lemma formatHtmlStructure_lines:
  "formatHtmlStructure t opts
     = join_with [CHR 0x0A] (out_lines (indent_of opts) 0 (split_on CHR 0x0A t))"
  by (simp add: formatHtmlStructure_def foldl_html_step)

lemma length_out_lines: "length (out_lines ind k ls) = length ls"
  by (induction ls arbitrary: k) simp_all

lemma js_repeat_spaces: "list_all is_space ind \<Longrightarrow> list_all is_space (js_repeat ind c)"
  by (induction "nat c") (auto simp: js_repeat_def list_all_iff)

lemma indent_of_spaces: "list_all is_space (indent_of opts)"
  by (simp add: indent_of_def list_all_iff is_space_def)

lemma out_lines_fixed:
  "list_all is_space ind \<Longrightarrow> out_lines ind k (out_lines ind k ls) = out_lines ind k ls"
proof (induction ls arbitrary: k)
  case Nil
  show ?case by simp
next
  case (Cons l ls)
  show ?case
  proof (cases "trim l = []")
    case True
    with Cons show ?thesis by (simp add: trim_Nil)
  next
    case False
    let ?c = "close_level k (trim l)"
    have "trim (js_repeat ind ?c @ trim l) = trim l"
      using trim_tidy [OF False] js_repeat_spaces [OF Cons.prems] by (rule trim_indented)
    with False Cons show ?thesis by simp
  qed
qed

inductive del :: "string list \<Rightarrow> string list \<Rightarrow> bool" where
  del_Nil: "del [] []"
| del_keep: "del xs ys \<Longrightarrow> del (x # xs) (x # ys)"
| del_drop: "del xs ys \<Longrightarrow> del ([] # xs) ys"

lemma del_refl: "del xs xs"
  by (induction xs) (auto intro: del.intros)

lemma del_set: "del xs ys \<Longrightarrow> set ys \<subseteq> set xs"
  by (induction rule: del.induct) auto

lemma del_fixed:
  "del xs ys \<Longrightarrow> out_lines ind k xs = xs \<Longrightarrow> out_lines ind k ys = ys"
proof (induction arbitrary: k rule: del.induct)
  case del_Nil
  show ?case by simp
next
  case (del_keep xs ys x)
  show ?case
  proof (cases "trim x = []")
    case True
    with del_keep.prems have "x = []" "out_lines ind k xs = xs" by simp_all
    with del_keep.IH [of k] show ?thesis by (simp add: trim_Nil)
  next
    case False
    with del_keep.prems have
      "out_lines ind (open_level (close_level k (trim x)) (trim x)) xs = xs"
      "js_repeat ind (close_level k (trim x)) @ trim x = x"
      by simp_all
    with del_keep.IH [of "open_level (close_level k (trim x)) (trim x)"] False
    show ?thesis by simp
  qed
next
  case (del_drop xs ys)
  from del_drop.prems have "out_lines ind k xs = xs"
    by (simp add: trim_Nil)
  then show ?case by (rule del_drop.IH)
qed

section \<open>The cap and the last newline, line by line\<close>

lemma squeeze_line:
  "CHR 0x0A \<notin> set l \<Longrightarrow> squeeze lim k (l @ r) = l @ squeeze lim (if l = [] then k else 0) r"
  by (induction l arbitrary: k) auto

fun sqz_lines :: "nat \<Rightarrow> nat \<Rightarrow> string list \<Rightarrow> string list" where
  \<comment> \<open>what \<open>squeeze\<close> does to the lines of a text: an empty line goes when \<open>lim\<close> newlines
      are out since the last line that was not empty\<close>
  "sqz_lines lim k [] = []"
| "sqz_lines lim k [l] = [l]"
| "sqz_lines lim k (l # l' # ls) =
     (if l \<noteq> [] then l # sqz_lines lim 1 (l' # ls)
      else if k < lim then [] # sqz_lines lim (Suc k) (l' # ls)
      else sqz_lines lim k (l' # ls))"

lemma sqz_lines_not_Nil: "ls \<noteq> [] \<Longrightarrow> sqz_lines lim k ls \<noteq> []"
  by (induction lim k ls rule: sqz_lines.induct) auto

lemma del_sqz_lines: "del ls (sqz_lines lim k ls)"
  by (induction lim k ls rule: sqz_lines.induct) (auto intro: del.intros del_refl)

lemma join_Cons: "ls \<noteq> [] \<Longrightarrow> join_with sep (l # ls) = l @ sep @ join_with sep ls"
  by (cases ls) simp_all

lemma squeeze_join:
  "0 < lim \<Longrightarrow> \<forall>l \<in> set ls. CHR 0x0A \<notin> set l \<Longrightarrow>
         squeeze lim k (join_with [CHR 0x0A] ls) = join_with [CHR 0x0A] (sqz_lines lim k ls)"
proof (induction lim k ls rule: sqz_lines.induct)
  case (1 lim k)
  show ?case by simp
next
  case (2 lim k l)
  then show ?case
    using squeeze_line [of l lim k "[]"] by simp
next
  case (3 lim k l l' ls)
  let ?J = "join_with [CHR 0x0A] (l' # ls)"
  from "3.prems" have pos: "0 < lim" and nl: "CHR 0x0A \<notin> set l"
    and rest: "\<forall>x \<in> set (l' # ls). CHR 0x0A \<notin> set x"
    by simp_all
  have j: "join_with [CHR 0x0A] (l # l' # ls) = l @ CHR 0x0A # ?J"
    by simp
  have n: "sqz_lines lim k' (l' # ls) \<noteq> []" for k'
    by (rule sqz_lines_not_Nil) simp
  show ?case
  proof (cases "l \<noteq> []")
    case True
    have "squeeze lim k (l @ CHR 0x0A # ?J) = l @ squeeze lim 0 (CHR 0x0A # ?J)"
      using squeeze_line [OF nl, of lim k] True by simp
    also have "\<dots> = l @ CHR 0x0A # squeeze lim 1 ?J"
      using pos by simp
    also have "squeeze lim 1 ?J = join_with [CHR 0x0A] (sqz_lines lim 1 (l' # ls))"
      using "3.IH"(1) [OF True pos rest] .
    finally show ?thesis
      using True join_Cons [OF n [of 1], of "[CHR 0x0A]" l] unfolding j by simp
  next
    case False
    then have e: "l = []" by simp
    show ?thesis
    proof (cases "k < lim")
      case True
      have "squeeze lim (Suc k) ?J = join_with [CHR 0x0A] (sqz_lines lim (Suc k) (l' # ls))"
        using "3.IH"(2) [OF False True pos rest] .
      then show ?thesis
        using e True join_Cons [OF n [of "Suc k"], of "[CHR 0x0A]" "[]"] unfolding j by simp
    next
      case False
      have "squeeze lim k ?J = join_with [CHR 0x0A] (sqz_lines lim k (l' # ls))"
        using "3.IH"(3) [OF \<open>\<not> l \<noteq> []\<close> False pos rest] .
      then show ?thesis
        using e False unfolding j by simp
    qed
  qed
qed


subsection \<open>The white space at the end\<close>

lemma strip_end_append:
  assumes "list_all is_space w" and "s = [] \<or> \<not> is_space (last s)"
  shows "strip_end (s @ w) = s"
proof -
  have "dropWhile is_space (rev w @ rev s) = dropWhile is_space (rev s)"
    using assms(1) by (intro dropWhile_append2) (simp add: list_all_iff)
  moreover have "dropWhile is_space (rev s) = rev s"
  proof (cases s rule: rev_cases)
    case Nil
    then show ?thesis by simp
  next
    case (snoc s' x)
    then show ?thesis using assms(2) by simp
  qed
  ultimately show ?thesis
    by (simp add: strip_end_def)
qed

lemma strip_end_decomp: "\<exists>w. t = strip_end t @ w \<and> list_all is_space w"
proof -
  let ?w = "rev (takeWhile is_space (rev t))"
  have "rev (takeWhile is_space (rev t) @ dropWhile is_space (rev t)) = rev (rev t)"
    by (simp only: takeWhile_dropWhile_id)
  then have "t = strip_end t @ ?w"
    by (simp only: strip_end_def rev_append rev_rev_ident)
  moreover have "list_all is_space ?w"
    by (simp add: list_all_iff) (meson set_takeWhileD)
  ultimately show ?thesis
    by blast
qed

lemma strip_end_last: "strip_end t = [] \<or> \<not> is_space (last (strip_end t))"
  using hd_dropWhile [of is_space "rev t"]
  by (cases "dropWhile is_space (rev t) = []") (simp_all add: strip_end_def last_rev)

lemma end_newline_idem: "end_newline (end_newline t) = end_newline t"
proof (cases "strip_end t = t")
  case True
  then show ?thesis by (simp add: end_newline_eq)
next
  case False
  have "strip_end (strip_end t @ [CHR 0x0A]) = strip_end t"
    using strip_end_last [of t] by (intro strip_end_append) (simp_all add: is_space_def)
  then show ?thesis
    using False by (simp add: end_newline_eq)
qed

subsection \<open>The lines of a text that ends in empty lines\<close>

lemma join_snoc: "A \<noteq> [] \<Longrightarrow> join_with sep (A @ [l]) = join_with sep A @ sep @ l"
proof (induction A)
  case Nil
  then show ?case by simp
next
  case (Cons a A)
  then show ?case by (cases A) simp_all
qed

lemma join_empties:
  "A \<noteq> [] \<Longrightarrow> join_with [CHR 0x0A] (A @ replicate e []) = join_with [CHR 0x0A] A @ replicate e CHR 0x0A"
proof (induction e)
  case 0
  show ?case by simp
next
  case (Suc e)
  have "join_with [CHR 0x0A] ((A @ replicate e []) @ [[]])
          = join_with [CHR 0x0A] (A @ replicate e []) @ [CHR 0x0A] @ []"
    using Suc.prems by (intro join_snoc) simp
  then show ?case
    using Suc by (simp add: replicate_append_same)
qed

lemma join_only_empties: "join_with [CHR 0x0A] (replicate (Suc e) []) = replicate e CHR 0x0A"
  by (induction e) simp_all

lemma last_join:
  "A \<noteq> [] \<Longrightarrow> last A \<noteq> [] \<Longrightarrow> join_with sep A \<noteq> [] \<and> last (join_with sep A) = last (last A)"
proof (induction A)
  case Nil
  then show ?case by simp
next
  case (Cons a A)
  then show ?case by (cases A) auto
qed

lemma trailing_empties: "\<exists>A e. X = A @ replicate e [] \<and> (A = [] \<or> last A \<noteq> [])"
proof (induction X rule: rev_induct)
  case Nil
  show ?case by simp
next
  case (snoc l X)
  show ?case
  proof (cases "l = []")
    case True
    from snoc obtain A e where "X = A @ replicate e []" and "A = [] \<or> last A \<noteq> []"
      by blast
    then have "X @ [l] = A @ replicate (Suc e) [] \<and> (A = [] \<or> last A \<noteq> [])"
      using True by (simp add: replicate_append_same)
    then show ?thesis by blast
  next
    case False
    then have "X @ [l] = (X @ [l]) @ replicate 0 [] \<and> (X @ [l] = [] \<or> last (X @ [l]) \<noteq> [])"
      by simp
    then show ?thesis by blast
  qed
qed

lemma del_empties: "e' \<le> e \<Longrightarrow> del (A @ replicate e []) (A @ replicate e' [])"
proof (induction A)
  case Nil
  then show ?case
  proof (induction e)
    case 0
    then show ?case by (simp add: del_Nil)
  next
    case (Suc e)
    show ?case
    proof (cases "e' = Suc e")
      case True
      then show ?thesis by (simp add: del_refl)
    next
      case False
      then have "del (replicate e []) (replicate e' [])"
        using Suc by simp
      then show ?thesis by (simp add: del_drop)
    qed
  qed
next
  case (Cons a A)
  then show ?case by (simp add: del_keep)
qed

lemma end_newline_lines:
  assumes X: "X = A @ replicate e []" and A: "A = [] \<or> last A \<noteq> []"
    and c: "\<forall>l \<in> set A. l = [] \<or> \<not> is_space (last l)" and n: "X \<noteq> []"
  shows "\<exists>e'. e' \<le> e \<and> (A = [] \<longrightarrow> 0 < e') \<and>
           end_newline (join_with [CHR 0x0A] X) = join_with [CHR 0x0A] (A @ replicate e' [])"
proof (cases "A = []")
  case False
  let ?J = "join_with [CHR 0x0A] A"
  have l: "last A \<noteq> []" using A False by simp
  then have "\<not> is_space (last (last A))" using c False by auto
  then have J: "?J \<noteq> []" "\<not> is_space (last ?J)"
    using last_join [OF False l, of "[CHR 0x0A]"] by simp_all
  have t: "join_with [CHR 0x0A] X = ?J @ replicate e CHR 0x0A"
    unfolding X by (rule join_empties [OF False])
  have s: "strip_end (?J @ replicate e CHR 0x0A) = ?J"
    using J by (intro strip_end_append) (simp_all add: list_all_iff is_space_def)
  show ?thesis
  proof (cases e)
    case 0
    then have "end_newline (join_with [CHR 0x0A] X) = join_with [CHR 0x0A] (A @ replicate 0 [])"
      using t s by (simp add: end_newline_eq)
    then show ?thesis using 0 False by blast
  next
    case (Suc e0)
    then have "end_newline (join_with [CHR 0x0A] X) = ?J @ [CHR 0x0A]"
      using t s by (simp add: end_newline_eq)
    also have "\<dots> = join_with [CHR 0x0A] (A @ replicate 1 [])"
      using join_empties [OF False, of 1] by simp
    finally show ?thesis using Suc False
      by (intro exI [of _ 1]) simp
  qed
next
  case True
  then obtain e0 where e: "e = Suc e0"
    using X n by (cases e) auto
  have t: "join_with [CHR 0x0A] X = replicate e0 CHR 0x0A"
    unfolding X True e using join_only_empties [of e0] by simp
  have s: "strip_end ([] @ replicate e0 CHR 0x0A) = []"
    by (intro strip_end_append) (simp_all add: list_all_iff is_space_def)
  show ?thesis
  proof (cases e0)
    case 0
    then have "end_newline (join_with [CHR 0x0A] X) = join_with [CHR 0x0A] (A @ replicate 1 [])"
      using t s True by (simp add: end_newline_eq)
    then show ?thesis using e True
      by (intro exI [of _ 1]) simp
  next
    case (Suc e1)
    then have "end_newline (join_with [CHR 0x0A] X) = [CHR 0x0A]"
      using t s by (simp add: end_newline_eq)
    also have "\<dots> = join_with [CHR 0x0A] (A @ replicate 2 [])"
      using True by (simp add: numeral_2_eq_2)
    finally show ?thesis using e Suc True
      by (intro exI [of _ 2]) simp
  qed
qed

subsection \<open>Texts with no run of newlines over the limit\<close>

fun bounded :: "nat \<Rightarrow> nat \<Rightarrow> string \<Rightarrow> bool" where
  \<comment> \<open>no run of newlines of the text is longer than \<open>lim\<close>, the run at its start counting
      \<open>k\<close> more\<close>
  "bounded lim k [] = True"
| "bounded lim k (x # a) =
     (if x = CHR 0x0A then k < lim \<and> bounded lim (Suc k) a else bounded lim 0 a)"

lemma bounded_squeeze: "k \<le> lim \<Longrightarrow> bounded lim k (squeeze lim k t)"
proof (induction t arbitrary: k)
  case Nil
  show ?case by simp
next
  case (Cons x t)
  then show ?case by (cases "k < lim") auto
qed

lemma squeeze_bounded: "bounded lim k t \<Longrightarrow> squeeze lim k t = t"
  by (induction t arbitrary: k) (auto split: if_splits)

lemma bounded_prefix: "bounded lim k (s @ w) \<Longrightarrow> bounded lim k s"
  by (induction s arbitrary: k) (auto split: if_splits)

lemma bounded_snoc:
  "0 < lim \<Longrightarrow> bounded lim k s \<Longrightarrow> (s = [] \<and> k < lim) \<or> (s \<noteq> [] \<and> last s \<noteq> CHR 0x0A) \<Longrightarrow>
   bounded lim k (s @ [CHR 0x0A])"
proof (induction s arbitrary: k)
  case Nil
  then show ?case by simp
next
  case (Cons x s)
  show ?case
  proof (cases "s = []")
    case True
    then show ?thesis using Cons.prems by simp
  next
    case False
    then have l: "(s = [] \<and> k' < lim) \<or> (s \<noteq> [] \<and> last s \<noteq> CHR 0x0A)" for k'
      using Cons.prems(3) by simp
    show ?thesis
    proof (cases "x = CHR 0x0A")
      case True
      then have "k < lim" "bounded lim (Suc k) s" using Cons.prems(2) by simp_all
      then show ?thesis
        using True Cons.IH [OF Cons.prems(1) _ l [of "Suc k"]] by simp
    next
      case False
      then have "bounded lim 0 s" using Cons.prems(2) by simp
      then show ?thesis
        using False Cons.IH [OF Cons.prems(1) _ l [of 0]] by simp
    qed
  qed
qed

lemma bounded_end_newline:
  assumes "0 < lim" and "bounded lim 0 t"
  shows "bounded lim 0 (end_newline t)"
proof (cases "strip_end t = t")
  case True
  then show ?thesis using assms(2) by (simp add: end_newline_eq)
next
  case False
  obtain w where w: "t = strip_end t @ w"
    using strip_end_decomp [of t] by blast
  have "bounded lim 0 (strip_end t @ w)"
    using assms(2) w by simp
  then have b: "bounded lim 0 (strip_end t)"
    by (rule bounded_prefix)
  have "(strip_end t = [] \<and> 0 < lim) \<or> (strip_end t \<noteq> [] \<and> last (strip_end t) \<noteq> CHR 0x0A)"
    using strip_end_last [of t] assms(1) by (auto simp: is_space_def)
  then have "bounded lim 0 (strip_end t @ [CHR 0x0A])"
    by (rule bounded_snoc [OF assms(1) b])
  then show ?thesis
    using False by (simp add: end_newline_eq)
qed

section \<open>The formatted text of an input without protected regions\<close>

subsection \<open>Where a pattern can stand\<close>

lemma has_Nil: "has p [] \<longleftrightarrow> p = []"
  by (auto simp: has_def)

lemma has_sublist: "has p l \<Longrightarrow> has p (a @ l @ b)"
proof -
  assume "has p l"
  then obtain u v where "l = u @ p @ v" unfolding has_def by blast
  then have "a @ l @ b = (a @ u) @ p @ (v @ b)" by simp
  then show ?thesis unfolding has_def by blast
qed

lemma has_split_at:
  assumes "c \<notin> set p" and "has p (a @ c # b)"
  shows "has p a \<or> has p b"
proof -
  from assms(2) obtain u v where e: "a @ c # b = u @ p @ v"
    unfolding has_def by blast
  then consider w where "a = u @ w" "w @ c # b = p @ v" | w where "a @ w = u" "c # b = w @ p @ v"
    by (auto simp: append_eq_append_conv2)
  then show ?thesis
  proof cases
    case 1
    from 1(2) consider z where "w = p @ z" "z @ c # b = v" | z where "w @ z = p" "c # b = z @ v"
      by (auto simp: append_eq_append_conv2)
    then show ?thesis
    proof cases
      case 1
      then have "a = u @ p @ z" using \<open>a = u @ w\<close> by simp
      then show ?thesis unfolding has_def by blast
    next
      case 2
      show ?thesis
      proof (cases z)
        case Nil
        then have "a = u @ p @ []" using 2 \<open>a = u @ w\<close> by simp
        then show ?thesis unfolding has_def by blast
      next
        case (Cons x z')
        then have "c \<in> set p" using 2 by auto
        then show ?thesis using assms(1) by simp
      qed
    qed
  next
    case 2
    show ?thesis
    proof (cases w)
      case Nil
      show ?thesis
      proof (cases p)
        case Nil
        then have "a = a @ p @ []" by simp
        then show ?thesis unfolding has_def by blast
      next
        case (Cons x p')
        then have "c \<in> set p" using 2 \<open>w = []\<close> by auto
        then show ?thesis using assms(1) by simp
      qed
    next
      case (Cons x w')
      then have "b = w' @ p @ v" using 2 by simp
      then show ?thesis unfolding has_def by blast
    qed
  qed
qed

lemma has_join:
  "p \<noteq> [] \<Longrightarrow> c \<notin> set p \<Longrightarrow> has p (join_with [c] ls) \<Longrightarrow> \<exists>l \<in> set ls. has p l"
proof (induction "[c]" ls rule: join_with.induct)
  case 1
  then show ?case by (simp add: has_Nil)
next
  case (2 l)
  then show ?case by simp
next
  case (3 l l' ls)
  from 3(4) have "has p (l @ c # join_with [c] (l' # ls))" by simp
  then have "has p l \<or> has p (join_with [c] (l' # ls))"
    by (rule has_split_at [OF 3(3)])
  then show ?case using 3(1) [OF 3(2) 3(3)] by auto
qed

lemma has_skip_spaces:
  "p \<noteq> [] \<Longrightarrow> \<forall>x \<in> set p. \<not> is_space x \<Longrightarrow> list_all is_space s \<Longrightarrow> has p (s @ w) \<Longrightarrow> has p w"
proof (induction s)
  case Nil
  then show ?case by simp
next
  case (Cons x s)
  have "x \<notin> set p" using Cons.prems(2,3) by auto
  moreover have "has p ([] @ x # (s @ w))" using Cons.prems(4) by simp
  ultimately have "has p [] \<or> has p (s @ w)" by (rule has_split_at)
  then show ?case using Cons by (simp add: has_Nil)
qed

lemma trim_decomp: "\<exists>a b. l = a @ trim l @ b"
proof -
  let ?d = "dropWhile is_space l"
  obtain w where "?d = strip_end ?d @ w"
    using strip_end_decomp [of ?d] by blast
  then have "takeWhile is_space l @ ?d = takeWhile is_space l @ trim l @ w"
    by (simp add: trim_strip_end)
  then have "l = takeWhile is_space l @ trim l @ w"
    by (simp only: takeWhile_dropWhile_id)
  then show ?thesis by blast
qed

lemma join_sublist: "l \<in> set ls \<Longrightarrow> \<exists>a b. join_with sep ls = a @ l @ b"
proof (induction sep ls rule: join_with.induct)
  case (1 sep)
  then show ?case by simp
next
  case (2 sep x)
  then have "join_with sep [x] = [] @ l @ []" by simp
  then show ?case by blast
next
  case (3 sep x l' ls)
  show ?case
  proof (cases "l = x")
    case True
    then have "join_with sep (x # l' # ls) = [] @ l @ (sep @ join_with sep (l' # ls))" by simp
    then show ?thesis by blast
  next
    case False
    then obtain a b where "join_with sep (l' # ls) = a @ l @ b"
      using 3 by auto
    then have "join_with sep (x # l' # ls) = (x @ sep @ a) @ l @ b" by simp
    then show ?thesis by blast
  qed
qed

lemma split_sublist: "l \<in> set (split_on d t) \<Longrightarrow> \<exists>a b. t = a @ l @ b"
  using join_sublist [of l "split_on d t" "[d]"] by (simp add: join_split)

lemma map_join: "map h (join_with sep ls) = join_with (map h sep) (map (map h) ls)"
  by (induction sep ls rule: join_with.induct) simp_all

subsection \<open>The lines that come out\<close>

lemma out_lines_elem:
  "x \<in> set (out_lines ind k ls) \<Longrightarrow>
   x = [] \<or> (\<exists>c l. l \<in> set ls \<and> trim l \<noteq> [] \<and> x = js_repeat ind c @ trim l)"
proof (induction ls arbitrary: k)
  case Nil
  then show ?case by simp
next
  case (Cons l ls)
  show ?case
  proof (cases "trim l = []")
    case True
    then show ?thesis using Cons by auto
  next
    case False
    then consider "x = js_repeat ind (close_level k (trim l)) @ trim l"
      | "x \<in> set (out_lines ind (open_level (close_level k (trim l)) (trim l)) ls)"
      using Cons.prems by auto
    then show ?thesis
    proof cases
      case 1
      then show ?thesis using False by auto
    next
      case 2
      then show ?thesis using Cons.IH by auto
    qed
  qed
qed

definition clean_line :: "string \<Rightarrow> bool" where
  \<comment> \<open>a line: no newline in it and no white space at its end\<close>
  "clean_line l \<longleftrightarrow> CHR 0x0A \<notin> set l \<and> (l = [] \<or> \<not> is_space (last l))"

lemma out_lines_clean:
  assumes "list_all is_space ind" and "CHR 0x0A \<notin> set ind"
    and "x \<in> set (out_lines ind k (split_on CHR 0x0A t))"
  shows "clean_line x"
proof -
  from out_lines_elem [OF assms(3)] consider "x = []"
    | c l where "l \<in> set (split_on CHR 0x0A t)" "trim l \<noteq> []" "x = js_repeat ind c @ trim l"
    by blast
  then show ?thesis
  proof cases
    case 1
    then show ?thesis by (simp add: clean_line_def)
  next
    case 2
    have "CHR 0x0A \<notin> set l" using 2(1) by (rule split_on_no_delim)
    moreover obtain a b where "l = a @ trim l @ b" using trim_decomp by blast
    ultimately have "CHR 0x0A \<notin> set (trim l)"
      by (metis Un_iff set_append)
    moreover have "CHR 0x0A \<notin> set (js_repeat ind c)"
      using assms(2) by (simp add: js_repeat_def)
    moreover have "\<not> is_space (last (trim l))"
      using trim_tidy [OF 2(2)] by (simp add: tidy_def)
    ultimately show ?thesis
      using 2(2,3) by (simp add: clean_line_def)
  qed
qed

lemma indent_of_no_newline: "CHR 0x0A \<notin> set (indent_of opts)"
  by (simp add: indent_of_def)

definition capped_lines :: "format_options \<Rightarrow> string \<Rightarrow> string list" where
  \<comment> \<open>the lines of the text after the cap on the newlines\<close>
  "capped_lines opts t =
     (let ls = out_lines (indent_of opts) 0 (split_on CHR 0x0A t)
      in if preserveNewlines opts then sqz_lines (maxPreserveNewlines opts + 1) 0 ls else ls)"

abbreviation formatted :: "format_options \<Rightarrow> string \<Rightarrow> string" where
  "formatted opts t \<equiv> end_newline (cap_newlines opts (formatHtmlStructure t opts))"

lemma capped_lines_props:
  shows "capped_lines opts t \<noteq> []"
    and "del (out_lines (indent_of opts) 0 (split_on CHR 0x0A t)) (capped_lines opts t)"
    and "x \<in> set (capped_lines opts t) \<Longrightarrow> clean_line x"
    and "out_lines (indent_of opts) 0 (capped_lines opts t) = capped_lines opts t"
    and "cap_newlines opts (formatHtmlStructure t opts) = join_with [CHR 0x0A] (capped_lines opts t)"
proof -
  let ?O = "out_lines (indent_of opts) 0 (split_on CHR 0x0A t)"
  have O: "?O \<noteq> []"
    using length_out_lines [of "indent_of opts" 0 "split_on CHR 0x0A t"] split_on_not_Nil [of "CHR 0x0A" t]
    by (metis length_0_conv)
  then show "capped_lines opts t \<noteq> []"
    by (simp add: capped_lines_def Let_def sqz_lines_not_Nil)
  show d: "del ?O (capped_lines opts t)"
    by (simp add: capped_lines_def Let_def del_sqz_lines del_refl)
  have c: "clean_line x" if "x \<in> set ?O" for x
    using that by (rule out_lines_clean [OF indent_of_spaces indent_of_no_newline])
  show "x \<in> set (capped_lines opts t) \<Longrightarrow> clean_line x"
    using del_set [OF d] c by blast
  have "out_lines (indent_of opts) 0 ?O = ?O"
    by (rule out_lines_fixed [OF indent_of_spaces])
  then show "out_lines (indent_of opts) 0 (capped_lines opts t) = capped_lines opts t"
    by (rule del_fixed [OF d])
  have "\<forall>l \<in> set ?O. CHR 0x0A \<notin> set l"
    using c by (simp add: clean_line_def)
  then have "squeeze (maxPreserveNewlines opts + 1) 0 (join_with [CHR 0x0A] ?O)
               = join_with [CHR 0x0A] (sqz_lines (maxPreserveNewlines opts + 1) 0 ?O)"
    by (intro squeeze_join) simp_all
  then show "cap_newlines opts (formatHtmlStructure t opts) = join_with [CHR 0x0A] (capped_lines opts t)"
    by (simp add: cap_newlines_eq formatHtmlStructure_lines capped_lines_def Let_def)
qed

lemma formatted_lines:
  "\<exists>A e e'. capped_lines opts t = A @ replicate e [] \<and> e' \<le> e \<and> A @ replicate e' [] \<noteq> [] \<and>
     formatted opts t = join_with [CHR 0x0A] (A @ replicate e' [])"
proof -
  obtain A e where X: "capped_lines opts t = A @ replicate e []" and A: "A = [] \<or> last A \<noteq> []"
    using trailing_empties by blast
  have "\<forall>l \<in> set A. l = [] \<or> \<not> is_space (last l)"
    using capped_lines_props(3) [of _ opts t] X by (simp add: clean_line_def)
  from end_newline_lines [OF X A this capped_lines_props(1)]
  obtain e' where "e' \<le> e" "A = [] \<longrightarrow> 0 < e'"
    "end_newline (join_with [CHR 0x0A] (capped_lines opts t)) = join_with [CHR 0x0A] (A @ replicate e' [])"
    by blast
  then have "capped_lines opts t = A @ replicate e [] \<and> e' \<le> e \<and> A @ replicate e' [] \<noteq> [] \<and>
     formatted opts t = join_with [CHR 0x0A] (A @ replicate e' [])"
    using X by (auto simp: capped_lines_props(5))
  then show ?thesis by blast
qed

lemma formatted_lines_fixed:
  "\<exists>Y. Y \<noteq> [] \<and> formatted opts t = join_with [CHR 0x0A] Y \<and>
       set Y \<subseteq> set (out_lines (indent_of opts) 0 (split_on CHR 0x0A t)) \<and>
       (\<forall>l \<in> set Y. CHR 0x0A \<notin> set l) \<and> out_lines (indent_of opts) 0 Y = Y"
proof -
  obtain A e e' where X: "capped_lines opts t = A @ replicate e []" and e: "e' \<le> e"
    and n: "A @ replicate e' [] \<noteq> []"
    and f: "formatted opts t = join_with [CHR 0x0A] (A @ replicate e' [])"
    using formatted_lines by blast
  let ?Y = "A @ replicate e' []"
  have d: "del (capped_lines opts t) ?Y"
    unfolding X using e by (rule del_empties)
  have s: "set ?Y \<subseteq> set (capped_lines opts t)"
    using d by (rule del_set)
  also have "\<dots> \<subseteq> set (out_lines (indent_of opts) 0 (split_on CHR 0x0A t))"
    using capped_lines_props(2) by (rule del_set)
  finally have 1: "set ?Y \<subseteq> set (out_lines (indent_of opts) 0 (split_on CHR 0x0A t))" .
  have 2: "\<forall>l \<in> set ?Y. CHR 0x0A \<notin> set l"
    using s capped_lines_props(3) [of _ opts t] by (auto simp: clean_line_def)
  have 3: "out_lines (indent_of opts) 0 ?Y = ?Y"
    using d capped_lines_props(4) by (rule del_fixed)
  show ?thesis
    using n f 1 2 3 by blast
qed

subsection \<open>A second pass changes nothing\<close>

lemma formatted_fixed: "formatted opts (formatted opts t) = formatted opts t"
proof -
  let ?u = "formatted opts t"
  obtain Y where Y: "Y \<noteq> []" "?u = join_with [CHR 0x0A] Y" "\<forall>l \<in> set Y. CHR 0x0A \<notin> set l"
    "out_lines (indent_of opts) 0 Y = Y"
    using formatted_lines_fixed [of opts t] by blast
  have "split_on CHR 0x0A ?u = Y"
    unfolding Y(2) using Y(1,3) by (rule split_join)
  then have h: "formatHtmlStructure ?u opts = ?u"
    using Y(2,4) by (simp add: formatHtmlStructure_lines)
  have c: "cap_newlines opts ?u = ?u"
  proof (cases "preserveNewlines opts")
    case False
    then show ?thesis by (simp add: cap_newlines_eq)
  next
    case True
    let ?lim = "maxPreserveNewlines opts + 1"
    have "bounded ?lim 0 (squeeze ?lim 0 (formatHtmlStructure t opts))"
      by (rule bounded_squeeze) simp
    then have "bounded ?lim 0 (end_newline (squeeze ?lim 0 (formatHtmlStructure t opts)))"
      by (intro bounded_end_newline) simp_all
    then have "squeeze ?lim 0 (end_newline (squeeze ?lim 0 (formatHtmlStructure t opts)))
                 = end_newline (squeeze ?lim 0 (formatHtmlStructure t opts))"
      by (rule squeeze_bounded)
    then show ?thesis
      using True by (simp add: cap_newlines_eq)
  qed
  show ?thesis
    by (simp only: h c end_newline_idem)
qed

subsection \<open>No opener of a protected region comes in\<close>

lemma has_formatted:
  assumes p: "p \<noteq> []" "\<forall>x \<in> set p. \<not> is_space x"
    and h: "\<And>c. is_space c \<Longrightarrow> h c = c"
    and f: "has p (map h (formatted opts t))"
  shows "has p (map h t)"
proof -
  obtain Y where Y: "formatted opts t = join_with [CHR 0x0A] Y"
    "set Y \<subseteq> set (out_lines (indent_of opts) 0 (split_on CHR 0x0A t))"
    using formatted_lines_fixed [of opts t] by blast
  have nl: "CHR 0x0A \<notin> set p"
    using p(2) by (auto simp: is_space_def)
  have "h CHR 0x0A = CHR 0x0A"
    by (rule h) (simp add: is_space_def)
  then have "map h (formatted opts t) = join_with [CHR 0x0A] (map (map h) Y)"
    unfolding Y(1) by (simp add: map_join)
  then have "has p (join_with [CHR 0x0A] (map (map h) Y))"
    using f by simp
  then have "\<exists>l \<in> set (map (map h) Y). has p l"
    by (rule has_join [OF p(1) nl])
  then obtain x where x: "x \<in> set Y" "has p (map h x)"
    by auto
  then have "x \<in> set (out_lines (indent_of opts) 0 (split_on CHR 0x0A t))"
    using Y(2) by blast
  from out_lines_elem [OF this] x(2) p(1)
  obtain c l where l: "l \<in> set (split_on CHR 0x0A t)" "x = js_repeat (indent_of opts) c @ trim l"
    by (auto simp: has_Nil)
  let ?s = "js_repeat (indent_of opts) c"
  have s: "list_all is_space ?s"
    by (rule js_repeat_spaces [OF indent_of_spaces])
  then have "map h ?s = ?s"
    using h by (intro map_idI) (simp add: list_all_iff)
  then have "has p (?s @ map h (trim l))"
    using x(2) l(2) by simp
  then have t: "has p (map h (trim l))"
    by (rule has_skip_spaces [OF p s])
  obtain a b where "l = a @ trim l @ b" using trim_decomp by blast
  then have "map h l = map h a @ map h (trim l) @ map h b"
    by (metis map_append)
  then have "has p (map h l)"
    using has_sublist [OF t] by simp
  moreover obtain a' b' where "t = a' @ l @ b'" using split_sublist [OF l(1)] by blast
  then have "map h t = map h a' @ map h l @ map h b'"
    by simp
  ultimately show ?thesis
    using has_sublist by simp
qed

lemma ascii_upper_space: "is_space c \<Longrightarrow> ascii_upper c = c"
  unfolding is_space_def ascii_upper_def by (elim disjE) simp_all

lemma region_free_formatted:
  assumes "region_free t"
  shows "region_free (formatted opts t)"
proof -
  have 1: "has p t" if "p \<noteq> []" "\<forall>x \<in> set p. \<not> is_space x" "has p (formatted opts t)" for p
    using has_formatted [of p "\<lambda>c. c" opts t] that by simp
  have 2: "has p (map ascii_upper t)"
    if "p \<noteq> []" "\<forall>x \<in> set p. \<not> is_space x" "has p (map ascii_upper (formatted opts t))" for p
    using has_formatted [of p ascii_upper opts t] that ascii_upper_space by simp
  have "\<not> has ''<%'' (formatted opts t)"
    using 1 [of "''<%''"] assms by (auto simp: region_free_def is_space_def)
  moreover have "\<not> has ''${'' (formatted opts t)"
    using 1 [of "''${''"] assms by (auto simp: region_free_def is_space_def)
  moreover have "\<not> has ''#{'' (formatted opts t)"
    using 1 [of "''#{''"] assms by (auto simp: region_free_def is_space_def)
  moreover have "\<not> has ''<SCRIPT'' (map ascii_upper (formatted opts t))"
    using 2 [of "''<SCRIPT''"] assms by (auto simp: region_free_def is_space_def)
  moreover have "\<not> has ''<STYLE'' (map ascii_upper (formatted opts t))"
    using 2 [of "''<STYLE''"] assms by (auto simp: region_free_def is_space_def)
  ultimately show ?thesis
    by (simp add: region_free_def)
qed

section \<open>Formatting twice\<close>

lemma has_code [code]:
  "has p t = list_ex (\<lambda>k. take (length p) (drop k t) = p) [0..<Suc (length t)]"
proof
  assume "has p t"
  then obtain u v where t: "t = u @ p @ v" unfolding has_def by blast
  then have "take (length p) (drop (length u) t) = p" by simp
  moreover have "length u < Suc (length t)" using t by simp
  ultimately show "list_ex (\<lambda>k. take (length p) (drop k t) = p) [0..<Suc (length t)]"
    unfolding list_ex_iff by (metis atLeastLessThan_iff set_upt zero_le)
next
  assume "list_ex (\<lambda>k. take (length p) (drop k t) = p) [0..<Suc (length t)]"
  then obtain k where "take (length p) (drop k t) = p"
    unfolding list_ex_iff by blast
  then show "has p t" by (rule has_at)
qed

text \<open>
  C1. Formatting twice is not formatting once. The scriptlet \<^verbatim>\<open><% for(;;){} %>\<close> is
  laid out with the header \<^verbatim>\<open>for(; ; )\<close>; formatting that output again gives the header
  \<^verbatim>\<open>for(;  ;  )\<close>, one more space after each semicolon. The step that joins the header
  of a \<^verbatim>\<open>for\<close> again writes a space for every line break it takes out, and the next pass
  breaks after the semicolons once more.
\<close>

theorem formatJsp_twice_differs:
  "formatJsp ''<% for(;;){} %>'' default_options
     = Inr ''<%\<newline>    for(; ; ){\<newline>    }\<newline>\<newline>%>'' \<and>
   formatJsp ''<%\<newline>    for(; ; ){\<newline>    }\<newline>\<newline>%>'' default_options
     = Inr ''<%\<newline>    for(;  ;  ){\<newline>    }\<newline>\<newline>%>'' \<and>
   ''<%\<newline>    for(;  ;  ){\<newline>    }\<newline>\<newline>%>''
     \<noteq> ''<%\<newline>    for(; ; ){\<newline>    }\<newline>\<newline>%>''"
  by code_simp

text \<open>
  Where nothing is extracted the second pass changes nothing: for every text without an
  opener of a protected region (no \<^verbatim>\<open><%\<close>, no \<^verbatim>\<open>${\<close>, no \<^verbatim>\<open>#{\<close>, no \<^verbatim>\<open><script\<close> and no
  \<^verbatim>\<open><style\<close> in any case of the letters) and all options, \<^verbatim>\<open>formatJsp\<close> returns a text,
  and formatting that text again with the same options returns it unchanged. The
  indentation of the tags, the cap on the newlines and the rewrite of the white space at
  the end are not what breaks the idempotence.
\<close>

lemma formatJsp_idempotent_without_regions:
  "region_free t \<Longrightarrow> \<exists>u. formatJsp t opts = Inr u \<and> formatJsp u opts = Inr u"
proof -
  assume r: "region_free t"
  let ?u = "formatted opts t"
  have "region_free ?u"
    using r by (rule region_free_formatted)
  then have "formatJsp ?u opts = Inr (formatted opts ?u)"
    by (rule formatJsp_region_free)
  then have "formatJsp ?u opts = Inr ?u"
    by (simp only: formatted_fixed)
  moreover have "formatJsp t opts = Inr ?u"
    using r by (rule formatJsp_region_free)
  ultimately show ?thesis
    by blast
qed

lemma formatJsp_idempotent_without_regions_example:
  "region_free ''<div>\<newline><b>x</b>  \<newline>\<newline>\<newline>\<newline>\<newline>\<newline></div> \<newline>\<newline>'' \<and>
   formatJsp ''<div>\<newline><b>x</b>  \<newline>\<newline>\<newline>\<newline>\<newline>\<newline></div> \<newline>\<newline>'' default_options
     = Inr ''<div>\<newline>    <b>x</b>\<newline>\<newline>\<newline></div>\<newline>'' \<and>
   formatJsp ''<div>\<newline>    <b>x</b>\<newline>\<newline>\<newline></div>\<newline>'' default_options
     = Inr ''<div>\<newline>    <b>x</b>\<newline>\<newline>\<newline></div>\<newline>''"
proof -
  let ?t = "''<div>\<newline><b>x</b>  \<newline>\<newline>\<newline>\<newline>\<newline>\<newline></div> \<newline>\<newline>''"
  let ?u = "''<div>\<newline>    <b>x</b>\<newline>\<newline>\<newline></div>\<newline>''"
  have r: "region_free ?t"
    by code_simp
  have e: "formatJsp ?t default_options = Inr ?u"
    by code_simp
  from formatJsp_idempotent_without_regions [OF r, of default_options]
  have "formatJsp ?u default_options = Inr ?u"
    unfolding e by simp
  with r e show ?thesis
    by blast
qed

section \<open>The cap on blank lines\<close>

lemma out_lines_append:
  "\<exists>k'. out_lines ind k (X @ Y) = out_lines ind k X @ out_lines ind k' Y"
proof (induction X arbitrary: k)
  case Nil
  have "out_lines ind k ([] @ Y) = out_lines ind k [] @ out_lines ind k Y" by simp
  then show ?case by blast
next
  case (Cons l X)
  show ?case
  proof (cases "trim l = []")
    case True
    obtain k' where "out_lines ind k (X @ Y) = out_lines ind k X @ out_lines ind k' Y"
      using Cons.IH by blast
    then have "out_lines ind k ((l # X) @ Y) = out_lines ind k (l # X) @ out_lines ind k' Y"
      using True by simp
    then show ?thesis by blast
  next
    case False
    let ?k = "open_level (close_level k (trim l)) (trim l)"
    obtain k' where "out_lines ind ?k (X @ Y) = out_lines ind ?k X @ out_lines ind k' Y"
      using Cons.IH by blast
    then have "out_lines ind k ((l # X) @ Y) = out_lines ind k (l # X) @ out_lines ind k' Y"
      using False by simp
    then show ?thesis by blast
  qed
qed

lemma out_lines_blank:
  "\<forall>e \<in> set E. trim e = [] \<Longrightarrow>
   out_lines ind k (E @ Y) = replicate (length E) [] @ out_lines ind k Y"
  by (induction E) simp_all

lemma sqz_lines_after:
  "x \<noteq> [] \<Longrightarrow> R \<noteq> [] \<Longrightarrow> \<exists>P'. sqz_lines lim k (P @ x # R) = P' @ x # sqz_lines lim 1 R"
proof (induction P arbitrary: k)
  case Nil
  then obtain r rs where "R = r # rs" by (cases R) auto
  then have "sqz_lines lim k ([] @ x # R) = [] @ x # sqz_lines lim 1 R"
    using Nil by simp
  then show ?case by blast
next
  case (Cons p P)
  obtain l' ls where e: "P @ x # R = l' # ls"
    by (cases P) auto
  have IH: "\<exists>P'. sqz_lines lim k' (l' # ls) = P' @ x # sqz_lines lim 1 R" for k'
    using Cons.IH [OF Cons.prems, of k'] e by simp
  show ?case
  proof (cases "p \<noteq> []")
    case True
    obtain P' where "sqz_lines lim 1 (l' # ls) = P' @ x # sqz_lines lim 1 R"
      using IH by blast
    then have "sqz_lines lim k ((p # P) @ x # R) = (p # P') @ x # sqz_lines lim 1 R"
      using True e by simp
    then show ?thesis by blast
  next
    case False
    show ?thesis
    proof (cases "k < lim")
      case True
      obtain P' where "sqz_lines lim (Suc k) (l' # ls) = P' @ x # sqz_lines lim 1 R"
        using IH by blast
      then have "sqz_lines lim k ((p # P) @ x # R) = ([] # P') @ x # sqz_lines lim 1 R"
        using True False e by simp
      then show ?thesis by blast
    next
      case nk: False
      obtain P' where "sqz_lines lim k (l' # ls) = P' @ x # sqz_lines lim 1 R"
        using IH by blast
      then have "sqz_lines lim k ((p # P) @ x # R) = P' @ x # sqz_lines lim 1 R"
        using nk False e by simp
      then show ?thesis by blast
    qed
  qed
qed

lemma blank_run_squeezed:
  "x \<noteq> [] \<Longrightarrow> \<exists>Q'. sqz_lines 3 1 ([] # [] # [] # [] # [] # x # Q) = [] # [] # x # Q'"
  by (cases Q) simp_all

lemma nonempty_before_empties:
  assumes "S @ x # Q = A @ replicate e []" and "x \<noteq> []"
  shows "\<exists>Q1. A = S @ x # Q1"
proof -
  from assms(1) consider w where "S = A @ w" "w @ x # Q = replicate e []"
    | w where "S @ w = A" "x # Q = w @ replicate e []"
    by (auto simp: append_eq_append_conv2)
  then show ?thesis
  proof cases
    case 1
    then have "x \<in> set (replicate e [])"
      by (metis in_set_conv_decomp)
    then show ?thesis using assms(2) by simp
  next
    case 2
    show ?thesis
    proof (cases w)
      case Nil
      then have "x \<in> set (replicate e [])"
        using 2(2) by (metis append_Nil list.set_intros(1))
      then show ?thesis using assms(2) by simp
    next
      case (Cons y w')
      then have "A = S @ x # w'" using 2 by auto
      then show ?thesis by blast
    qed
  qed
qed

text \<open>
  C8. Five blank lines at the start of the text, before the line \<^verbatim>\<open>a\<close>: with
  \<^verbatim>\<open>preserveNewlines\<close> true and \<^verbatim>\<open>maxPreserveNewlines = 2\<close> the output keeps three blank
  lines, not two. The cap rewrites a run of four or more newlines to three newlines, which
  are two blank lines only when a line stands before the run.
\<close>

theorem leading_blank_run_keeps_three:
  "formatJsp ''\<newline>\<newline>\<newline>\<newline>\<newline>a'' default_options = Inr ''\<newline>\<newline>\<newline>a'' \<and>
   split_on CHR 0x0A ''\<newline>\<newline>\<newline>\<newline>\<newline>a'' = [[], [], [], [], [], ''a''] \<and>
   split_on CHR 0x0A ''\<newline>\<newline>\<newline>a'' = [[], [], [], ''a'']"
  by code_simp

lemma blank_run_in_script_kept:
  \<comment> \<open>inside a script block the lines that hold only a space are not touched\<close>
  "formatJsp ''<script>\<newline> \<newline> \<newline> \<newline> \<newline> \<newline></script>'' default_options
     = Inr ''<script>\<newline> \<newline> \<newline> \<newline> \<newline> \<newline></script>''"
  by code_simp

text \<open>
  Between two lines the cap leaves two blank lines: with \<^verbatim>\<open>preserveNewlines\<close> true and
  \<^verbatim>\<open>maxPreserveNewlines = 2\<close>, for every text without an opener of a protected region in
  which five consecutive blank lines (empty or of white space only) stand between a line \<open>a\<close>
  and a line \<open>b\<close> that are not blank, \<^verbatim>\<open>formatJsp\<close> returns a text in which exactly two
  empty lines stand between the line of \<open>a\<close> and the line of \<open>b\<close>.
\<close>

lemma blank_run_capped:
  assumes r: "region_free t" and p: "preserveNewlines opts" and mx: "maxPreserveNewlines opts = 2"
    and s: "split_on CHR 0x0A t = A @ [a] @ E @ [b] @ B"
    and E: "length E = 5" "\<forall>e \<in> set E. trim e = []"
    and a: "trim a \<noteq> []" and b: "trim b \<noteq> []"
  shows "\<exists>u A' B' a' b'. formatJsp t opts = Inr u \<and>
           split_on CHR 0x0A u = A' @ [a', [], [], b'] @ B' \<and> trim a' = trim a \<and> trim b' = trim b"
proof -
  let ?ind = "indent_of opts"
  obtain k1 where 1: "out_lines ?ind 0 (A @ (a # E @ b # B))
      = out_lines ?ind 0 A @ out_lines ?ind k1 (a # E @ b # B)"
    using out_lines_append by blast
  define xa where "xa = js_repeat ?ind (close_level k1 (trim a)) @ trim a"
  define k2 where "k2 = open_level (close_level k1 (trim a)) (trim a)"
  define xb where "xb = js_repeat ?ind (close_level k2 (trim b)) @ trim b"
  define OB where "OB = out_lines ?ind (open_level (close_level k2 (trim b)) (trim b)) B"
  have 2: "out_lines ?ind k1 (a # E @ b # B) = xa # out_lines ?ind k2 (E @ b # B)"
    using a by (simp add: xa_def k2_def)
  have 3: "out_lines ?ind k2 (E @ b # B) = replicate 5 [] @ out_lines ?ind k2 (b # B)"
    using out_lines_blank [OF E(2), of ?ind k2 "b # B"] E(1) by simp
  have 4: "out_lines ?ind k2 (b # B) = xb # OB"
    using b by (simp add: xb_def OB_def)
  have xa: "xa \<noteq> []" and xb: "xb \<noteq> []"
    using a b by (simp_all add: xa_def xb_def)
  have O: "out_lines ?ind 0 (split_on CHR 0x0A t)
             = out_lines ?ind 0 A @ xa # ([] # [] # [] # [] # [] # xb # OB)"
    using 1 unfolding s 2 3 4 by (simp add: eval_nat_numeral)
  have c: "capped_lines opts t
             = sqz_lines 3 0 (out_lines ?ind 0 A @ xa # ([] # [] # [] # [] # [] # xb # OB))"
    using p mx by (simp add: capped_lines_def O)
  obtain P' where 5: "sqz_lines 3 0 (out_lines ?ind 0 A @ xa # ([] # [] # [] # [] # [] # xb # OB))
      = P' @ xa # sqz_lines 3 1 ([] # [] # [] # [] # [] # xb # OB)"
    using sqz_lines_after [OF xa, of "[] # [] # [] # [] # [] # xb # OB" 3 0 "out_lines ?ind 0 A"]
    by blast
  obtain Q' where 6: "sqz_lines 3 1 ([] # [] # [] # [] # [] # xb # OB) = [] # [] # xb # Q'"
    using blank_run_squeezed [OF xb] by blast
  have c': "capped_lines opts t = (P' @ [xa, [], []]) @ xb # Q'"
    unfolding c 5 6 by simp
  obtain A0 e e' where f: "capped_lines opts t = A0 @ replicate e []" "e' \<le> e"
    "formatted opts t = join_with [CHR 0x0A] (A0 @ replicate e' [])"
    using formatted_lines [of opts t] by blast
  obtain Q1 where A0: "A0 = (P' @ [xa, [], []]) @ xb # Q1"
    using nonempty_before_empties [OF _ xb, of "P' @ [xa, [], []]" Q' A0 e] f(1) c' by auto
  let ?Y = "A0 @ replicate e' []"
  have Y: "?Y = P' @ [xa, [], [], xb] @ (Q1 @ replicate e' [])"
    unfolding A0 by simp
  have "set ?Y \<subseteq> set (capped_lines opts t)"
    unfolding f(1) using f(2) by (intro del_set del_empties)
  then have "\<forall>l \<in> set ?Y. CHR 0x0A \<notin> set l"
    using capped_lines_props(3) [of _ opts t] by (auto simp: clean_line_def)
  moreover have "?Y \<noteq> []"
    unfolding Y by simp
  ultimately have "split_on CHR 0x0A (join_with [CHR 0x0A] ?Y) = ?Y"
    by (intro split_join)
  then have sp: "split_on CHR 0x0A (formatted opts t) = P' @ [xa, [], [], xb] @ (Q1 @ replicate e' [])"
    unfolding f(3) Y .
  have ta: "trim xa = trim a"
    unfolding xa_def
    by (rule trim_indented [OF trim_tidy [OF a] js_repeat_spaces [OF indent_of_spaces]])
  have tb: "trim xb = trim b"
    unfolding xb_def
    by (rule trim_indented [OF trim_tidy [OF b] js_repeat_spaces [OF indent_of_spaces]])
  have "formatJsp t opts = Inr (formatted opts t)"
    using r by (rule formatJsp_region_free)
  then show ?thesis
    using sp ta tb by blast
qed

lemma blank_run_capped_example:
  "formatJsp ''<div>\<newline><b>x</b>  \<newline>\<newline>\<newline>\<newline>\<newline>\<newline></div> \<newline>\<newline>'' default_options
     = Inr ''<div>\<newline>    <b>x</b>\<newline>\<newline>\<newline></div>\<newline>'' \<and>
   (\<exists>A' B' a' b'.
      split_on CHR 0x0A ''<div>\<newline>    <b>x</b>\<newline>\<newline>\<newline></div>\<newline>'' = A' @ [a', [], [], b'] @ B' \<and>
      trim a' = ''<b>x</b>'' \<and> trim b' = ''</div>'')"
proof -
  let ?t = "''<div>\<newline><b>x</b>  \<newline>\<newline>\<newline>\<newline>\<newline>\<newline></div> \<newline>\<newline>''"
  let ?u = "''<div>\<newline>    <b>x</b>\<newline>\<newline>\<newline></div>\<newline>''"
  have r: "region_free ?t"
    by code_simp
  have e: "formatJsp ?t default_options = Inr ?u"
    by code_simp
  have s: "split_on CHR 0x0A ?t = [''<div>''] @ [''<b>x</b>  ''] @ [[], [], [], [], []] @ [''</div> ''] @ [[], []]"
    by code_simp
  have ta: "trim ''<b>x</b>  '' = ''<b>x</b>''" and tb: "trim ''</div> '' = ''</div>''"
    by code_simp+
  have "\<exists>u A' B' a' b'. formatJsp ?t default_options = Inr u \<and>
          split_on CHR 0x0A u = A' @ [a', [], [], b'] @ B' \<and>
          trim a' = trim ''<b>x</b>  '' \<and> trim b' = trim ''</div> ''"
    using r s
    by (intro blank_run_capped [where A = "[''<div>'']" and E = "[[], [], [], [], []]" and B = "[[], []]"])
       (simp_all add: default_options_def trim_Nil ta tb)
  then show ?thesis
    unfolding e ta tb by simp
qed

section \<open>The lines formatJavaCode returns\<close>

subsection \<open>The texts a callback is given\<close>

definition matches :: "regex \<Rightarrow> string \<Rightarrow> string \<Rightarrow> string list" where
  \<comment> \<open>the matched texts, in the order the callback of \<open>replace_fn\<close> gets them\<close>
  "matches r b a = snd (replace_fn r (\<lambda>mt ms. ([], ms @ [mt])) b a [])"

lemma replace_fn_end:
  "m r (b, [], []) = [] \<Longrightarrow> replace_fn r f b [] s = ([], s)"
  by (subst replace_fn.simps) simp






lemma matches_end: "m r (b, [], []) = [] \<Longrightarrow> matches r b [] = []"
  by (simp add: matches_def replace_fn_end)




subsection \<open>Putting a string literal back\<close>

















subsection \<open>The lines of the loop, and the lines of the result\<close>







subsection \<open>The brace level and the indentation of the lines\<close>


lemma dollar_literal_not_indented:
  \<comment> \<open>a literal that holds \<^verbatim>\<open>$'\<close> is put back with the rest of the text in its place\<close>
  "formatJavaCode (''a(\"$'' @ [CHR 0x27] @ ''\");'') ''    '' = ''    a(\");\<newline>\");\<newline>''"
  by code_simp



end
